theory Spec2Isabelle
  imports Complex_Main
begin

section \<open>JavaScript numbers\<close>

text \<open>
  The classifier computes with JavaScript numbers. They are modelled as the real
  numbers extended with the three special values that decide the control flow of
  the program: \<open>Infinity\<close>, \<open>-Infinity\<close> and \<open>NaN\<close>. Arithmetic on finite values is
  exact: rounding, overflow to infinity and underflow to zero are not modelled.
  Zero carries no sign; a zero divisor is read as \<open>+0\<close>, which is what every divisor of
  the program is when it is zero (an array length, a square root, a multiple of a
  square, a sum of exponentials).
\<close>

datatype jsnum = Fin real | PInf | NInf | NaN

text \<open>\<open>undefined\<close> is \<open>None\<close>; a value of an array of numbers is \<open>Some\<close> number.\<close>

type_synonym jsval = "jsnum option"

fun ToNumber :: "jsval \<Rightarrow> jsnum" where
  "ToNumber None = NaN"
| "ToNumber (Some v) = v"

text \<open>An array read \<open>xs[i]\<close>: \<open>undefined\<close> beyond the end.\<close>

definition js_index :: "'a list \<Rightarrow> nat \<Rightarrow> 'a option" where
  "js_index xs i = (if i < length xs then Some (xs ! i) else None)"

fun js_neg :: "jsnum \<Rightarrow> jsnum" where
  "js_neg (Fin a) = Fin (- a)"
| "js_neg PInf = NInf"
| "js_neg NInf = PInf"
| "js_neg NaN = NaN"

fun js_add :: "jsnum \<Rightarrow> jsnum \<Rightarrow> jsnum" where
  "js_add (Fin a) (Fin b) = Fin (a + b)"
| "js_add (Fin a) PInf = PInf"
| "js_add (Fin a) NInf = NInf"
| "js_add PInf (Fin b) = PInf"
| "js_add PInf PInf = PInf"
| "js_add PInf NInf = NaN"
| "js_add NInf (Fin b) = NInf"
| "js_add NInf PInf = NaN"
| "js_add NInf NInf = NInf"
| "js_add NaN b = NaN"
| "js_add a NaN = NaN"

definition js_sub :: "jsnum \<Rightarrow> jsnum \<Rightarrow> jsnum" where
  "js_sub a b = js_add a (js_neg b)"

fun js_mul :: "jsnum \<Rightarrow> jsnum \<Rightarrow> jsnum" where
  "js_mul (Fin a) (Fin b) = Fin (a * b)"
| "js_mul (Fin a) PInf = (if a = 0 then NaN else if 0 < a then PInf else NInf)"
| "js_mul (Fin a) NInf = (if a = 0 then NaN else if 0 < a then NInf else PInf)"
| "js_mul PInf (Fin b) = (if b = 0 then NaN else if 0 < b then PInf else NInf)"
| "js_mul NInf (Fin b) = (if b = 0 then NaN else if 0 < b then NInf else PInf)"
| "js_mul PInf PInf = PInf"
| "js_mul PInf NInf = NInf"
| "js_mul NInf PInf = NInf"
| "js_mul NInf NInf = PInf"
| "js_mul NaN b = NaN"
| "js_mul a NaN = NaN"

fun js_div :: "jsnum \<Rightarrow> jsnum \<Rightarrow> jsnum" where
  "js_div (Fin a) (Fin b) =
     (if b = 0 then (if a = 0 then NaN else if 0 < a then PInf else NInf)
      else Fin (a / b))"
| "js_div (Fin a) PInf = Fin 0"
| "js_div (Fin a) NInf = Fin 0"
| "js_div PInf (Fin b) = (if 0 \<le> b then PInf else NInf)"
| "js_div NInf (Fin b) = (if 0 \<le> b then NInf else PInf)"
| "js_div PInf PInf = NaN"
| "js_div PInf NInf = NaN"
| "js_div NInf PInf = NaN"
| "js_div NInf NInf = NaN"
| "js_div NaN b = NaN"
| "js_div a NaN = NaN"

text \<open>\<open>Math.pow(a, 2)\<close> and \<open>a ** 2\<close>: the only exponent the program uses.\<close>

fun js_pow2 :: "jsnum \<Rightarrow> jsnum" where
  "js_pow2 (Fin a) = Fin (a\<^sup>2)"
| "js_pow2 PInf = PInf"
| "js_pow2 NInf = PInf"
| "js_pow2 NaN = NaN"

fun js_sqrt :: "jsnum \<Rightarrow> jsnum" where
  "js_sqrt (Fin a) = (if a < 0 then NaN else Fin (sqrt a))"
| "js_sqrt PInf = PInf"
| "js_sqrt NInf = NaN"
| "js_sqrt NaN = NaN"

fun js_exp :: "jsnum \<Rightarrow> jsnum" where
  "js_exp (Fin a) = Fin (exp a)"
| "js_exp PInf = PInf"
| "js_exp NInf = Fin 0"
| "js_exp NaN = NaN"

fun js_log :: "jsnum \<Rightarrow> jsnum" where
  "js_log (Fin a) = (if a < 0 then NaN else if a = 0 then NInf else Fin (ln a))"
| "js_log PInf = PInf"
| "js_log NInf = NaN"
| "js_log NaN = NaN"

text \<open>The comparison \<open>a > b\<close>: false as soon as one side is \<open>NaN\<close>.\<close>

fun js_gt :: "jsnum \<Rightarrow> jsnum \<Rightarrow> bool" where
  "js_gt (Fin a) (Fin b) = (b < a)"
| "js_gt (Fin a) PInf = False"
| "js_gt (Fin a) NInf = True"
| "js_gt PInf (Fin b) = True"
| "js_gt PInf PInf = False"
| "js_gt PInf NInf = True"
| "js_gt NInf b = False"
| "js_gt NaN b = False"
| "js_gt a NaN = False"

section \<open>Exceptions and loops that may throw\<close>

text \<open>
  The only exception the program can raise is the \<open>TypeError\<close> of reading a property
  of \<open>undefined\<close>. A computation that may throw returns \<open>Inl TypeError\<close>.
\<close>

datatype error = TypeError

text \<open>A loop over \<open>xs\<close> that updates a state and stops at the first exception.\<close>

fun foldE :: "('a \<Rightarrow> 's \<Rightarrow> error + 's) \<Rightarrow> 'a list \<Rightarrow> 's \<Rightarrow> error + 's" where
  "foldE f [] s = Inr s"
| "foldE f (x # xs) s = (case f x s of Inl e \<Rightarrow> Inl e | Inr s' \<Rightarrow> foldE f xs s')"

text \<open>A loop over \<open>xs\<close> that pushes one result per element and stops at the first exception.\<close>

fun mapE :: "('a \<Rightarrow> error + 'b) \<Rightarrow> 'a list \<Rightarrow> error + 'b list" where
  "mapE f [] = Inr []"
| "mapE f (x # xs) =
     (case f x of
        Inl e \<Rightarrow> Inl e
      | Inr v \<Rightarrow> (case mapE f xs of Inl e \<Rightarrow> Inl e | Inr vs \<Rightarrow> Inr (v # vs)))"

section \<open>The private state \<open>#data\<close>\<close>

text \<open>
  \<open>#data\<close> is an object whose keys are the class labels and whose values are objects
  with the properties \<open>sortedAttributes\<close>, \<open>mean\<close> and \<open>stDev\<close>, each \<open>undefined\<close>
  (\<open>None\<close>) until it is assigned. The arrays of \<open>sortedAttributes\<close> hold what was read
  from the feature matrix, which is \<open>undefined\<close> for a read beyond the end of a row.
\<close>

record category =
  sortedAttributes :: "jsval list list option"
  mean :: "jsnum list option"
  stDev :: "jsnum list option"

definition emptyObject :: category where
  "emptyObject = \<lparr>sortedAttributes = None, mean = None, stDev = None\<rparr>"

text \<open>
  The object is a list of key-value pairs in ascending order of the keys, the order
  in which \<open>for ... in\<close> visits the integer keys of an object.
\<close>

type_synonym data = "(nat \<times> category) list"

definition js_get :: "data \<Rightarrow> nat \<Rightarrow> category option" where
  "js_get d k = map_of d k"

fun js_put :: "nat \<Rightarrow> category \<Rightarrow> data \<Rightarrow> data" where
  "js_put k v [] = [(k, v)]"
| "js_put k v ((k', v') # d) =
     (if k = k' then (k, v) # d
      else if k < k' then (k, v) # (k', v') # d
      else (k', v') # js_put k v d)"

section \<open>Training\<close>

text \<open>
  The feature matrix is a list of rows of numbers, and the labels are natural numbers.
\<close>

subsection \<open>\<open>#formatData\<close>\<close>

text \<open>The first loop: a label above the counter increments it and gets a fresh object.\<close>

fun addCategories :: "nat list \<Rightarrow> nat \<Rightarrow> data \<Rightarrow> nat \<times> data" where
  "addCategories [] numOfUniqueLabels d = (numOfUniqueLabels, d)"
| "addCategories (l # labels) numOfUniqueLabels d =
     (if l > numOfUniqueLabels
      then addCategories labels (numOfUniqueLabels + 1) (js_put l emptyObject d)
      else addCategories labels numOfUniqueLabels d)"

text \<open>
  The body of the second loop: \<open>this.#data[i].sortedAttributes\<close> becomes an array of
  \<open>numOfAttributes\<close> empty arrays; it throws when \<open>this.#data[i]\<close> is \<open>undefined\<close>.
\<close>

definition addSortedAttributes :: "nat \<Rightarrow> nat \<Rightarrow> data \<Rightarrow> error + data" where
  "addSortedAttributes numOfAttributes i d =
     (case js_get d i of
        None \<Rightarrow> Inl TypeError
      | Some c \<Rightarrow> Inr (js_put i (c\<lparr>sortedAttributes := Some (replicate numOfAttributes [])\<rparr>) d))"

text \<open>
  The body of the third loop, for row \<open>i\<close> and attribute \<open>j\<close>:
  \<open>this.#data[category].sortedAttributes[j].push(attributeValues[i][j])\<close>, where
  \<open>category\<close> is \<open>labels[i]\<close>.
\<close>

definition pushAttribute :: "nat option \<Rightarrow> jsnum list \<Rightarrow> nat \<Rightarrow> data \<Rightarrow> error + data" where
  "pushAttribute category row j d =
     (case category of
        None \<Rightarrow> Inl TypeError
      | Some k \<Rightarrow>
          (case js_get d k of
             None \<Rightarrow> Inl TypeError
           | Some c \<Rightarrow>
               (case sortedAttributes c of
                  None \<Rightarrow> Inl TypeError
                | Some sa \<Rightarrow>
                    if j < length sa
                    then Inr (js_put k
                           (c\<lparr>sortedAttributes := Some (sa[j := sa ! j @ [js_index row j]])\<rparr>) d)
                    else Inl TypeError)))"

definition pushRow :: "jsnum list list \<Rightarrow> nat list \<Rightarrow> nat \<Rightarrow> nat \<Rightarrow> data \<Rightarrow> error + data" where
  "pushRow attributeValues labels numOfAttributes i d =
     foldE (pushAttribute (js_index labels i) (attributeValues ! i)) [0..<numOfAttributes] d"

definition formatData :: "jsnum list list \<Rightarrow> nat list \<Rightarrow> error + data" where
  "formatData attributeValues labels =
     (case addCategories labels 0 [] of
        (numOfUniqueLabels, d1) \<Rightarrow>
          (case attributeValues of
             [] \<Rightarrow> Inl TypeError
           | first # _ \<Rightarrow>
               (case foldE (addSortedAttributes (length first)) [1..<numOfUniqueLabels + 1] d1 of
                  Inl e \<Rightarrow> Inl e
                | Inr d2 \<Rightarrow>
                    foldE (pushRow attributeValues labels (length first))
                      [0..<length attributeValues] d2)))"

subsection \<open>\<open>#meanEachAttributeCategory\<close>\<close>

definition attributeMean :: "jsval list \<Rightarrow> jsnum" where
  "attributeMean attributeValues =
     (let attributeSum = foldl (\<lambda>s v. js_add s (ToNumber v)) (Fin 0) attributeValues
      in js_div attributeSum (Fin (real (length attributeValues))))"

fun meanEachAttributeCategory :: "data \<Rightarrow> error + data" where
  "meanEachAttributeCategory [] = Inr []"
| "meanEachAttributeCategory ((k, c) # d) =
     (case sortedAttributes c of
        None \<Rightarrow> Inl TypeError
      | Some attributesValues \<Rightarrow>
          (case meanEachAttributeCategory d of
             Inl e \<Rightarrow> Inl e
           | Inr d' \<Rightarrow> Inr ((k, c\<lparr>mean := Some (map attributeMean attributesValues)\<rparr>) # d')))"

subsection \<open>\<open>#standardDeviation\<close>\<close>

text \<open>
  The inner loop: the sum of the squared differences to \<open>attributesMeanValue[i]\<close>. The
  mean array is read only when the loop body runs.
\<close>

fun squaredDifferences :: "jsnum list option \<Rightarrow> nat \<Rightarrow> jsval list \<Rightarrow> jsnum \<Rightarrow> error + jsnum" where
  "squaredDifferences attributesMeanValue i [] acc = Inr acc"
| "squaredDifferences attributesMeanValue i (v # vs) acc =
     (case attributesMeanValue of
        None \<Rightarrow> Inl TypeError
      | Some ms \<Rightarrow>
          squaredDifferences attributesMeanValue i vs
            (js_add acc (js_pow2 (js_sub (ToNumber v) (ToNumber (js_index ms i))))))"

definition attributeStDev :: "jsnum list option \<Rightarrow> jsval list list \<Rightarrow> nat \<Rightarrow> error + jsnum" where
  "attributeStDev attributesMeanValue attributes i =
     (case squaredDifferences attributesMeanValue i (attributes ! i) (Fin 0) of
        Inl e \<Rightarrow> Inl e
      | Inr sq \<Rightarrow>
          (let variance = js_div sq (Fin (real (length (attributes ! i))))
           in Inr (js_sqrt variance)))"

fun standardDeviation :: "data \<Rightarrow> error + data" where
  "standardDeviation [] = Inr []"
| "standardDeviation ((k, c) # d) =
     (case sortedAttributes c of
        None \<Rightarrow> Inl TypeError
      | Some attributes \<Rightarrow>
          (case mapE (attributeStDev (mean c) attributes) [0..<length attributes] of
             Inl e \<Rightarrow> Inl e
           | Inr sds \<Rightarrow>
               (case standardDeviation d of
                  Inl e \<Rightarrow> Inl e
                | Inr d' \<Rightarrow> Inr ((k, c\<lparr>stDev := Some sds\<rparr>) # d'))))"

subsection \<open>\<open>fit\<close>\<close>

text \<open>\<open>fit\<close> starts from a fresh object, so the fitted state depends on its arguments only.\<close>

definition fit :: "jsnum list list \<Rightarrow> nat list \<Rightarrow> error + data" where
  "fit x y =
     (case formatData x y of
        Inl e \<Rightarrow> Inl e
      | Inr d \<Rightarrow>
          (case meanEachAttributeCategory d of
             Inl e \<Rightarrow> Inl e
           | Inr d' \<Rightarrow> standardDeviation d'))"

section \<open>Inference\<close>

definition pdf :: "jsnum \<Rightarrow> jsnum \<Rightarrow> jsnum \<Rightarrow> jsnum" where
  "pdf xInput meanTraining stdTraining =
     js_mul
       (js_div (Fin 1) (js_mul (js_sqrt (js_mul (Fin 2) (Fin pi))) stdTraining))
       (js_exp (js_div (js_neg (js_pow2 (js_sub xInput meanTraining)))
                       (js_mul (Fin 2) (js_pow2 stdTraining))))"

text \<open>
  \<open>#calculatePDFPredictions\<close>: for each attribute \<open>j\<close> of the input, the densities of
  \<open>x[index][j]\<close> in every category, in the order of the keys.
\<close>

definition categoryPDF :: "jsnum list \<Rightarrow> nat \<Rightarrow> category \<Rightarrow> error + jsnum" where
  "categoryPDF row j c =
     (case mean c of
        None \<Rightarrow> Inl TypeError
      | Some ms \<Rightarrow>
          (case stDev c of
             None \<Rightarrow> Inl TypeError
           | Some ss \<Rightarrow>
               Inr (pdf (ToNumber (js_index row j)) (ToNumber (js_index ms j))
                        (ToNumber (js_index ss j)))))"

definition calculatePDFPredictions :: "data \<Rightarrow> jsnum list \<Rightarrow> error + jsnum list list" where
  "calculatePDFPredictions d row =
     mapE (\<lambda>j. mapE (\<lambda>kc. categoryPDF row j (snd kc)) d) [0..<length row]"

definition convertPDFPredictionsToLog :: "jsnum list list \<Rightarrow> jsnum list list" where
  "convertPDFPredictionsToLog pdfPredictions = map (map js_log) pdfPredictions"

text \<open>
  \<open>#sumLogPDF\<close> builds its result array by index: \<open>sumLogPDF[h]\<close> is read (a hole or
  a position beyond the end is \<open>undefined\<close>), then assigned or added to. An assignment
  beyond the end extends the array.
\<close>

definition js_load :: "jsval list \<Rightarrow> nat \<Rightarrow> jsval" where
  "js_load xs i = (if i < length xs then xs ! i else None)"

definition js_store :: "jsval list \<Rightarrow> nat \<Rightarrow> jsval \<Rightarrow> jsval list" where
  "js_store xs i v =
     (if i < length xs then xs[i := v]
      else xs @ replicate (i - length xs) None @ [v])"

definition sumLogPDF_step :: "jsnum list \<Rightarrow> nat \<Rightarrow> jsval list \<Rightarrow> jsval list" where
  "sumLogPDF_step logRow h acc =
     (case js_load acc h of
        None \<Rightarrow> js_store acc h (js_index logRow h)
      | Some s \<Rightarrow> js_store acc h (Some (js_add s (ToNumber (js_index logRow h)))))"

definition sumLogPDF :: "jsnum list list \<Rightarrow> error + jsval list" where
  "sumLogPDF pdfPredictionsLog =
     (case pdfPredictionsLog of
        [] \<Rightarrow> Inl TypeError
      | first # _ \<Rightarrow>
          Inr (fold (\<lambda>logRow acc. fold (sumLogPDF_step logRow) [0..<length first] acc)
                 pdfPredictionsLog []))"

definition convertLogToOriginal :: "jsval list \<Rightarrow> jsnum list" where
  "convertLogToOriginal sumLogs = map (\<lambda>v. js_exp (ToNumber v)) sumLogs"

definition normalizeProbabilities :: "jsnum list \<Rightarrow> jsnum list" where
  "normalizeProbabilities expSumLogPDF =
     (let pSum = foldl js_add (Fin 0) expSumLogPDF
      in map (\<lambda>v. js_div v pSum) expSumLogPDF)"

definition findHighestProbabilityIndex :: "jsnum list \<Rightarrow> nat" where
  "findHighestProbabilityIndex normalizedProbabilities =
     fold (\<lambda>j maxValueIndex.
             if js_gt (ToNumber (js_index normalizedProbabilities j))
                      (ToNumber (js_index normalizedProbabilities maxValueIndex))
             then j else maxValueIndex)
          [0..<length normalizedProbabilities] 0"

text \<open>
  The body of the loop of \<open>predict\<close>, in three stages: the per-class values that are
  fed into the normalization, the normalized values, and the index that is pushed.
\<close>

definition expSumLogPDFOf :: "data \<Rightarrow> jsnum list \<Rightarrow> error + jsnum list" where
  "expSumLogPDFOf d row =
     (case calculatePDFPredictions d row of
        Inl e \<Rightarrow> Inl e
      | Inr pdfPredictions \<Rightarrow>
          (case sumLogPDF (convertPDFPredictionsToLog pdfPredictions) of
             Inl e \<Rightarrow> Inl e
           | Inr sumLogs \<Rightarrow> Inr (convertLogToOriginal sumLogs)))"

definition normalizedProbabilitiesOf :: "data \<Rightarrow> jsnum list \<Rightarrow> error + jsnum list" where
  "normalizedProbabilitiesOf d row =
     (case expSumLogPDFOf d row of
        Inl e \<Rightarrow> Inl e
      | Inr expSumLogPDF \<Rightarrow> Inr (normalizeProbabilities expSumLogPDF))"

definition predictRow :: "data \<Rightarrow> jsnum list \<Rightarrow> error + nat" where
  "predictRow d row =
     (case normalizedProbabilitiesOf d row of
        Inl e \<Rightarrow> Inl e
      | Inr normalizedProbabilities \<Rightarrow>
          Inr (findHighestProbabilityIndex normalizedProbabilities))"

definition predict :: "data \<Rightarrow> jsnum list list \<Rightarrow> error + nat list" where
  "predict d x = mapE (predictRow d) x"

section \<open>Accuracy scoring\<close>

text \<open>
  \<open>#countCorrectlyClassifiedPredictions\<close>: the loop over \<open>i < totalPredictionsCount\<close>
  adds one whenever \<open>y[i] === predictions[i] + 1\<close>. A read beyond the end of either
  array is \<open>undefined\<close>, which is never strictly equal to a number.
\<close>

definition classifiedCorrectly :: "nat list \<Rightarrow> nat list \<Rightarrow> nat \<Rightarrow> bool" where
  "classifiedCorrectly predictions y i =
     (case js_index predictions i of
        None \<Rightarrow> False
      | Some p \<Rightarrow> js_index y i = Some (p + 1))"

definition countCorrectlyClassifiedPredictions :: "nat list \<Rightarrow> nat list \<Rightarrow> nat \<Rightarrow> nat" where
  "countCorrectlyClassifiedPredictions predictions y totalPredictionsCount =
     fold (\<lambda>i correctlyClassified.
             if classifiedCorrectly predictions y i then correctlyClassified + 1
             else correctlyClassified)
          [0..<totalPredictionsCount] 0"

definition accuracyScore :: "nat list \<Rightarrow> nat list \<Rightarrow> jsnum" where
  "accuracyScore predictions y =
     (let totalPredictionsCount = length predictions;
          correctlyClassified =
            countCorrectlyClassifiedPredictions predictions y totalPredictionsCount
      in js_div (Fin (real correctlyClassified)) (Fin (real totalPredictionsCount)))"

section \<open>Double-precision arithmetic\<close>

text \<open>
  The sections above compute exactly on finite values. That is enough for what does
  not depend on the digits of a result: the shape of the fitted object, the
  exceptions, the propagation of \<open>NaN\<close>, the index of the first maximum among given
  values. The numbers of the program are doubles, however: every operation rounds
  its exact result to the nearest double, ties to the even significand (IEEE 754
  binary64), overflows to an infinity and underflows to zero. This section gives the
  statistics of \<open>fit\<close> and the values of \<open>predict\<close> over that arithmetic.
\<close>

text \<open>
  The nearest integer, ties to even; the exponent of the binade of \<open>x\<close>, which is
  \<open>-1022\<close> on the subnormal numbers; the distance between the doubles of that binade;
  and the double nearest to a real number. A double is a multiple of \<open>2^-1074\<close>.
\<close>

definition tiesToEven :: "real \<Rightarrow> int" where
  "tiesToEven q =
     (let f = \<lfloor>q\<rfloor> in
      if q - of_int f < 1 / 2 then f
      else if 1 / 2 < q - of_int f then f + 1
      else if even f then f else f + 1)"

definition exponentOf :: "real \<Rightarrow> int" where
  "exponentOf x = max \<lfloor>log 2 \<bar>x\<bar>\<rfloor> (- 1022)"

definition ulp :: "real \<Rightarrow> real" where
  "ulp x = 2 powr of_int (exponentOf x - 52)"

definition dbl :: "real \<Rightarrow> jsnum" where
  "dbl x =
     (if x = 0 then Fin 0
      else let r = ulp x * of_int (tiesToEven (x / ulp x))
           in if 2 ^ 1024 \<le> \<bar>r\<bar> then (if 0 < x then PInf else NInf) else Fin r)"

text \<open>
  Half the relative distance between neighbouring doubles, which bounds the relative
  error of a rounding that neither overflows nor underflows.
\<close>

definition unitRoundoff :: real where
  "unitRoundoff = 1 / 2 ^ 53"

definition isDouble :: "real \<Rightarrow> bool" where
  "isDouble r = (dbl r = Fin r)"

definition onGrid :: "real \<Rightarrow> bool" where
  "onGrid r = (\<exists>k::int. r = of_int k * 2 powr (- 1074))"

text \<open>
  The four arithmetic operations: on finite operands the rounded exact result, on an
  infinity or \<open>NaN\<close> as above.
\<close>

fun d_add :: "jsnum \<Rightarrow> jsnum \<Rightarrow> jsnum" where
  "d_add (Fin a) (Fin b) = dbl (a + b)"
| "d_add a b = js_add a b"

definition d_sub :: "jsnum \<Rightarrow> jsnum \<Rightarrow> jsnum" where
  "d_sub a b = d_add a (js_neg b)"

fun d_mul :: "jsnum \<Rightarrow> jsnum \<Rightarrow> jsnum" where
  "d_mul (Fin a) (Fin b) = dbl (a * b)"
| "d_mul a b = js_mul a b"

fun d_div :: "jsnum \<Rightarrow> jsnum \<Rightarrow> jsnum" where
  "d_div (Fin a) (Fin b) = (if b = 0 then js_div (Fin a) (Fin b) else dbl (a / b))"
| "d_div a b = js_div a b"

text \<open>
  \<open>Math.sqrt\<close>, \<open>Math.exp\<close>, \<open>Math.log\<close> and the exponentiation (\<open>Math.pow(a, 2)\<close>,
  \<open>a ** 2\<close>) are functions of the host. Their values at zero, at the infinities, at
  \<open>NaN\<close> and outside their domain are fixed; on the other arguments they are
  parameters of the model. \<open>correctlyRounded\<close> is the host that returns the double
  nearest to the exact result.
\<close>

record host =
  mathSqrt :: "real \<Rightarrow> jsnum"
  mathExp :: "real \<Rightarrow> jsnum"
  mathLog :: "real \<Rightarrow> jsnum"
  square :: "real \<Rightarrow> jsnum"

definition correctlyRounded :: host where
  "correctlyRounded =
     \<lparr>mathSqrt = (\<lambda>a. dbl (sqrt a)), mathExp = (\<lambda>a. dbl (exp a)),
      mathLog = (\<lambda>a. dbl (ln a)), square = (\<lambda>a. dbl (a\<^sup>2))\<rparr>"

fun d_sqrt :: "host \<Rightarrow> jsnum \<Rightarrow> jsnum" where
  "d_sqrt h (Fin a) = (if a \<le> 0 then js_sqrt (Fin a) else mathSqrt h a)"
| "d_sqrt h a = js_sqrt a"

fun d_exp :: "host \<Rightarrow> jsnum \<Rightarrow> jsnum" where
  "d_exp h (Fin a) = mathExp h a"
| "d_exp h a = js_exp a"

fun d_log :: "host \<Rightarrow> jsnum \<Rightarrow> jsnum" where
  "d_log h (Fin a) = (if a \<le> 0 then js_log (Fin a) else mathLog h a)"
| "d_log h a = js_log a"

fun d_pow2 :: "host \<Rightarrow> jsnum \<Rightarrow> jsnum" where
  "d_pow2 h (Fin a) = square h a"
| "d_pow2 h a = js_pow2 a"

text \<open>\<open>Math.PI\<close>, the double nearest to \<open>pi\<close>: 3.141592653589793.\<close>

definition mathPI :: real where
  "mathPI = 884279719003555 / 281474976710656"

subsection \<open>The statistics of \<open>fit\<close>\<close>

definition attributeMean_d :: "jsval list \<Rightarrow> jsnum" where
  "attributeMean_d attributeValues =
     (let attributeSum = foldl (\<lambda>s v. d_add s (ToNumber v)) (Fin 0) attributeValues
      in d_div attributeSum (Fin (real (length attributeValues))))"

fun meanEachAttributeCategory_d :: "data \<Rightarrow> error + data" where
  "meanEachAttributeCategory_d [] = Inr []"
| "meanEachAttributeCategory_d ((k, c) # d) =
     (case sortedAttributes c of
        None \<Rightarrow> Inl TypeError
      | Some attributesValues \<Rightarrow>
          (case meanEachAttributeCategory_d d of
             Inl e \<Rightarrow> Inl e
           | Inr d' \<Rightarrow> Inr ((k, c\<lparr>mean := Some (map attributeMean_d attributesValues)\<rparr>) # d')))"

fun squaredDifferences_d ::
  "host \<Rightarrow> jsnum list option \<Rightarrow> nat \<Rightarrow> jsval list \<Rightarrow> jsnum \<Rightarrow> error + jsnum" where
  "squaredDifferences_d h attributesMeanValue i [] acc = Inr acc"
| "squaredDifferences_d h attributesMeanValue i (v # vs) acc =
     (case attributesMeanValue of
        None \<Rightarrow> Inl TypeError
      | Some ms \<Rightarrow>
          squaredDifferences_d h attributesMeanValue i vs
            (d_add acc (d_pow2 h (d_sub (ToNumber v) (ToNumber (js_index ms i))))))"

definition attributeStDev_d ::
  "host \<Rightarrow> jsnum list option \<Rightarrow> jsval list list \<Rightarrow> nat \<Rightarrow> error + jsnum" where
  "attributeStDev_d h attributesMeanValue attributes i =
     (case squaredDifferences_d h attributesMeanValue i (attributes ! i) (Fin 0) of
        Inl e \<Rightarrow> Inl e
      | Inr sq \<Rightarrow>
          (let variance = d_div sq (Fin (real (length (attributes ! i))))
           in Inr (d_sqrt h variance)))"

fun standardDeviation_d :: "host \<Rightarrow> data \<Rightarrow> error + data" where
  "standardDeviation_d h [] = Inr []"
| "standardDeviation_d h ((k, c) # d) =
     (case sortedAttributes c of
        None \<Rightarrow> Inl TypeError
      | Some attributes \<Rightarrow>
          (case mapE (attributeStDev_d h (mean c) attributes) [0..<length attributes] of
             Inl e \<Rightarrow> Inl e
           | Inr sds \<Rightarrow>
               (case standardDeviation_d h d of
                  Inl e \<Rightarrow> Inl e
                | Inr d' \<Rightarrow> Inr ((k, c\<lparr>stDev := Some sds\<rparr>) # d'))))"

definition fit_d :: "host \<Rightarrow> jsnum list list \<Rightarrow> nat list \<Rightarrow> error + data" where
  "fit_d h x y =
     (case formatData x y of
        Inl e \<Rightarrow> Inl e
      | Inr d \<Rightarrow>
          (case meanEachAttributeCategory_d d of
             Inl e \<Rightarrow> Inl e
           | Inr d' \<Rightarrow> standardDeviation_d h d'))"

subsection \<open>The values of \<open>predict\<close>\<close>

definition pdf_d :: "host \<Rightarrow> jsnum \<Rightarrow> jsnum \<Rightarrow> jsnum \<Rightarrow> jsnum" where
  "pdf_d h xInput meanTraining stdTraining =
     d_mul
       (d_div (Fin 1) (d_mul (d_sqrt h (d_mul (Fin 2) (Fin mathPI))) stdTraining))
       (d_exp h (d_div (js_neg (d_pow2 h (d_sub xInput meanTraining)))
                       (d_mul (Fin 2) (d_pow2 h stdTraining))))"

definition categoryPDF_d :: "host \<Rightarrow> jsnum list \<Rightarrow> nat \<Rightarrow> category \<Rightarrow> error + jsnum" where
  "categoryPDF_d h row j c =
     (case mean c of
        None \<Rightarrow> Inl TypeError
      | Some ms \<Rightarrow>
          (case stDev c of
             None \<Rightarrow> Inl TypeError
           | Some ss \<Rightarrow>
               Inr (pdf_d h (ToNumber (js_index row j)) (ToNumber (js_index ms j))
                          (ToNumber (js_index ss j)))))"

definition calculatePDFPredictions_d ::
  "host \<Rightarrow> data \<Rightarrow> jsnum list \<Rightarrow> error + jsnum list list" where
  "calculatePDFPredictions_d h d row =
     mapE (\<lambda>j. mapE (\<lambda>kc. categoryPDF_d h row j (snd kc)) d) [0..<length row]"

definition convertPDFPredictionsToLog_d :: "host \<Rightarrow> jsnum list list \<Rightarrow> jsnum list list" where
  "convertPDFPredictionsToLog_d h pdfPredictions = map (map (d_log h)) pdfPredictions"

definition sumLogPDF_step_d :: "jsnum list \<Rightarrow> nat \<Rightarrow> jsval list \<Rightarrow> jsval list" where
  "sumLogPDF_step_d logRow h acc =
     (case js_load acc h of
        None \<Rightarrow> js_store acc h (js_index logRow h)
      | Some s \<Rightarrow> js_store acc h (Some (d_add s (ToNumber (js_index logRow h)))))"

definition sumLogPDF_d :: "jsnum list list \<Rightarrow> error + jsval list" where
  "sumLogPDF_d pdfPredictionsLog =
     (case pdfPredictionsLog of
        [] \<Rightarrow> Inl TypeError
      | first # _ \<Rightarrow>
          Inr (fold (\<lambda>logRow acc. fold (sumLogPDF_step_d logRow) [0..<length first] acc)
                 pdfPredictionsLog []))"

definition convertLogToOriginal_d :: "host \<Rightarrow> jsval list \<Rightarrow> jsnum list" where
  "convertLogToOriginal_d h sumLogs = map (\<lambda>v. d_exp h (ToNumber v)) sumLogs"

definition normalizeProbabilities_d :: "jsnum list \<Rightarrow> jsnum list" where
  "normalizeProbabilities_d expSumLogPDF =
     (let pSum = foldl d_add (Fin 0) expSumLogPDF
      in map (\<lambda>v. d_div v pSum) expSumLogPDF)"

definition expSumLogPDFOf_d :: "host \<Rightarrow> data \<Rightarrow> jsnum list \<Rightarrow> error + jsnum list" where
  "expSumLogPDFOf_d h d row =
     (case calculatePDFPredictions_d h d row of
        Inl e \<Rightarrow> Inl e
      | Inr pdfPredictions \<Rightarrow>
          (case sumLogPDF_d (convertPDFPredictionsToLog_d h pdfPredictions) of
             Inl e \<Rightarrow> Inl e
           | Inr sumLogs \<Rightarrow> Inr (convertLogToOriginal_d h sumLogs)))"

definition normalizedProbabilitiesOf_d :: "host \<Rightarrow> data \<Rightarrow> jsnum list \<Rightarrow> error + jsnum list" where
  "normalizedProbabilitiesOf_d h d row =
     (case expSumLogPDFOf_d h d row of
        Inl e \<Rightarrow> Inl e
      | Inr expSumLogPDF \<Rightarrow> Inr (normalizeProbabilities_d expSumLogPDF))"

section \<open>What the specification says\<close>

text \<open>
  The definitions of this section follow the words of the specification; the
  properties below compare them with the program.
\<close>

text \<open>The positions \<open>i\<close> with \<open>y[i] = predictions[i] + 1\<close>.\<close>

definition matchingIndices :: "nat list \<Rightarrow> nat list \<Rightarrow> nat list" where
  "matchingIndices predictions y =
     filter (\<lambda>i. y ! i = predictions ! i + 1) [0..<length predictions]"

text \<open>The arithmetic mean, and the population standard deviation (division by N).\<close>

definition arithmeticMean :: "real list \<Rightarrow> real" where
  "arithmeticMean rs = sum_list rs / real (length rs)"

definition populationStdDev :: "real list \<Rightarrow> real" where
  "populationStdDev rs = sqrt ((\<Sum>r\<leftarrow>rs. (r - arithmeticMean rs)\<^sup>2) / real (length rs))"

text \<open>The Gaussian density, and the sum over the attributes of the log-densities.\<close>

definition gaussianDensity :: "real \<Rightarrow> real \<Rightarrow> real \<Rightarrow> real" where
  "gaussianDensity x \<mu> \<sigma> = (1 / (sqrt (2 * pi) * \<sigma>)) * exp (- ((x - \<mu>)\<^sup>2) / (2 * \<sigma>\<^sup>2))"

definition logDensitySum :: "jsnum list \<Rightarrow> jsnum list \<Rightarrow> jsnum list \<Rightarrow> jsnum" where
  "logDensitySum x ms ss =
     foldl js_add (Fin 0) (map (\<lambda>j. js_log (pdf (x ! j) (ms ! j) (ss ! j))) [0..<length x])"

text \<open>
  The first occurrence of the maximum: no value is strictly greater than the one at
  \<open>i\<close>, and the value at \<open>i\<close> is strictly greater than every value before it that
  is a number.
\<close>

definition firstMaximum :: "jsnum list \<Rightarrow> nat \<Rightarrow> bool" where
  "firstMaximum vs i =
     (i < length vs \<and>
      (\<forall>j\<in>{0..<length vs}. \<not> js_gt (vs ! j) (vs ! i)) \<and>
      (\<forall>j\<in>{0..<i}. js_gt (vs ! i) (vs ! j) \<or> vs ! j = NaN))"

text \<open>
  The encoding of the labels that \<open>fit\<close> requires: every label is positive, and all
  smaller positive labels occur before it. The labels are then \<open>1..K\<close>, and each new
  label first appears after all smaller ones.
\<close>

definition firstAppearanceOrder :: "nat list \<Rightarrow> bool" where
  "firstAppearanceOrder y =
     (\<forall>i\<in>{0..<length y}. 1 \<le> y ! i \<and> (\<forall>c\<in>{1..<y ! i}. c \<in> set (take i y)))"

text \<open>The values \<open>X[i][j]\<close>, in index order, of the rows \<open>i\<close> with \<open>y[i] = c\<close>.\<close>

definition classValues :: "jsnum list list \<Rightarrow> nat list \<Rightarrow> nat \<Rightarrow> nat \<Rightarrow> jsval list" where
  "classValues X y c j = map (\<lambda>i. Some (X ! i ! j)) (filter (\<lambda>i. y ! i = c) [0..<length X])"

section \<open>Three fitted models\<close>

text \<open>
  \<open>twoClasses\<close> is what \<open>fit\<close> returns for the rows 0, 2 (class 1) and 4, 6 (class 2);
  \<open>constantClass\<close> is what it returns for one class with the constant value 1, whose
  standard deviation is 0; \<open>mixedClasses\<close> is what it returns for the rows 1, 1
  (class 1, standard deviation 0) and 4, 6 (class 2).
\<close>

definition twoClasses :: data where
  "twoClasses =
     [(1, \<lparr>sortedAttributes = Some [[Some (Fin 0), Some (Fin 2)]],
           mean = Some [Fin 1], stDev = Some [Fin 1]\<rparr>),
      (2, \<lparr>sortedAttributes = Some [[Some (Fin 4), Some (Fin 6)]],
           mean = Some [Fin 5], stDev = Some [Fin 1]\<rparr>)]"

definition constantClass :: data where
  "constantClass =
     [(1, \<lparr>sortedAttributes = Some [[Some (Fin 1), Some (Fin 1)]],
           mean = Some [Fin 1], stDev = Some [Fin 0]\<rparr>)]"

definition mixedClasses :: data where
  "mixedClasses =
     [(1, \<lparr>sortedAttributes = Some [[Some (Fin 1), Some (Fin 1)]],
           mean = Some [Fin 1], stDev = Some [Fin 0]\<rparr>),
      (2, \<lparr>sortedAttributes = Some [[Some (Fin 4), Some (Fin 6)]],
           mean = Some [Fin 5], stDev = Some [Fin 1]\<rparr>)]"

section \<open>Invariants and closed forms used in the proofs\<close>

text \<open>The body and the invariant of the loop of \<open>#findHighestProbabilityIndex\<close>.\<close>

definition highestStep :: "jsnum list \<Rightarrow> nat \<Rightarrow> nat \<Rightarrow> nat" where
  "highestStep vs j m =
     (if js_gt (ToNumber (js_index vs j)) (ToNumber (js_index vs m)) then j else m)"

definition highestUpTo :: "jsnum list \<Rightarrow> nat \<Rightarrow> nat \<Rightarrow> bool" where
  "highestUpTo vs n m =
     ((m < n \<or> m = 0) \<and>
      (\<forall>j<n. \<not> js_gt (vs ! j) (vs ! m)) \<and>
      (\<forall>j<m. js_gt (vs ! m) (vs ! j) \<or> vs ! j = NaN))"

text \<open>
  The density that \<open>predict\<close> computes for attribute \<open>j\<close> of a row in a category that
  has its statistics, and the value it computes for the category from them.
\<close>

definition densityAt :: "jsnum list \<Rightarrow> category \<Rightarrow> nat \<Rightarrow> jsnum" where
  "densityAt row c j =
     pdf (ToNumber (js_index row j))
         (ToNumber (js_index (the (mean c)) j))
         (ToNumber (js_index (the (stDev c)) j))"

definition hasStatistics :: "data \<Rightarrow> bool" where
  "hasStatistics d = (\<forall>kc\<in>set d. mean (snd kc) \<noteq> None \<and> stDev (snd kc) \<noteq> None)"

definition classValue :: "jsnum list \<Rightarrow> category \<Rightarrow> jsnum" where
  "classValue row c =
     js_exp (foldl js_add (Fin 0) (map (\<lambda>j. js_log (densityAt row c j)) [0..<length row]))"

text \<open>
  The standard deviation that \<open>#standardDeviation\<close> computes from a mean \<open>m\<close>, what each
  of the two statistics passes does to a category, and what both leave in a category
  whose \<open>A\<close> arrays were filled.
\<close>

definition stDevOf :: "jsnum \<Rightarrow> jsval list \<Rightarrow> jsnum" where
  "stDevOf m vs =
     js_sqrt (js_div (foldl (\<lambda>a v. js_add a (js_pow2 (js_sub (ToNumber v) m))) (Fin 0) vs)
                     (Fin (real (length vs))))"

definition withMean :: "category \<Rightarrow> category \<Rightarrow> bool" where
  "withMean c c' =
     (case sortedAttributes c of
        None \<Rightarrow> False
      | Some sa \<Rightarrow> c' = c\<lparr>mean := Some (map attributeMean sa)\<rparr>)"

definition withStDev :: "category \<Rightarrow> category \<Rightarrow> bool" where
  "withStDev c c' =
     (case sortedAttributes c of
        None \<Rightarrow> False
      | Some sa \<Rightarrow>
          (case mapE (attributeStDev (mean c) sa) [0..<length sa] of
             Inl e \<Rightarrow> False
           | Inr sds \<Rightarrow> c' = c\<lparr>stDev := Some sds\<rparr>))"

definition fittedCategory :: "nat \<Rightarrow> category \<Rightarrow> bool" where
  "fittedCategory A c =
     (case sortedAttributes c of
        None \<Rightarrow> False
      | Some sa \<Rightarrow>
          length sa = A \<and>
          mean c = Some (map attributeMean sa) \<and>
          stDev c = Some (map (\<lambda>vs. stDevOf (attributeMean vs) vs) sa))"

text \<open>
  The invariant of the loops of \<open>#formatData\<close>: the keys stay in ascending order and
  stay the same, and every \<open>sortedAttributes\<close> that is defined has \<open>A\<close> arrays.
\<close>

definition keysSorted :: "data \<Rightarrow> bool" where
  "keysSorted d = sorted_wrt (<) (map fst d)"

definition arraysOf :: "nat \<Rightarrow> data \<Rightarrow> bool" where
  "arraysOf A d = (\<forall>kc\<in>set d. \<forall>sa. sortedAttributes (snd kc) = Some sa \<longrightarrow> length sa = A)"

definition formatInv :: "nat \<Rightarrow> nat list \<Rightarrow> data \<Rightarrow> bool" where
  "formatInv A ks d = (keysSorted d \<and> map fst d = ks \<and> arraysOf A d)"

text \<open>
  The object with the keys \<open>1..n\<close> and the value \<open>f k\<close> at key \<open>k\<close>, and the state of
  \<open>#formatData\<close> after \<open>m\<close> rows when the labels are in first-appearance order.
\<close>

definition table :: "(nat \<Rightarrow> category) \<Rightarrow> nat \<Rightarrow> data" where
  "table f n = map (\<lambda>k. (k, f k)) [1..<Suc n]"

definition rowsOf :: "jsnum list list \<Rightarrow> nat list \<Rightarrow> nat \<Rightarrow> nat \<Rightarrow> nat \<Rightarrow> jsval list" where
  "rowsOf X y k m j = map (\<lambda>i. js_index (X ! i) j) (filter (\<lambda>i. y ! i = k) [0..<m])"

definition partitioned :: "jsnum list list \<Rightarrow> nat list \<Rightarrow> nat \<Rightarrow> nat \<Rightarrow> nat \<Rightarrow> category" where
  "partitioned X y A m k =
     \<lparr>sortedAttributes = Some (map (rowsOf X y k m) [0..<A]), mean = None, stDev = None\<rparr>"

section \<open>Closed forms and conditions over double-precision arithmetic\<close>

text \<open>
  The standard deviation that \<open>#standardDeviation\<close> computes from a mean \<open>m\<close>, what each
  of the two statistics passes does to a category, and what both leave in a category
  whose \<open>A\<close> arrays were filled, over double-precision arithmetic.
\<close>

definition stDevOf_d :: "host \<Rightarrow> jsnum \<Rightarrow> jsval list \<Rightarrow> jsnum" where
  "stDevOf_d h m vs =
     d_sqrt h (d_div (foldl (\<lambda>a v. d_add a (d_pow2 h (d_sub (ToNumber v) m))) (Fin 0) vs)
                     (Fin (real (length vs))))"

definition withMean_d :: "category \<Rightarrow> category \<Rightarrow> bool" where
  "withMean_d c c' =
     (case sortedAttributes c of
        None \<Rightarrow> False
      | Some sa \<Rightarrow> c' = c\<lparr>mean := Some (map attributeMean_d sa)\<rparr>)"

definition withStDev_d :: "host \<Rightarrow> category \<Rightarrow> category \<Rightarrow> bool" where
  "withStDev_d h c c' =
     (case sortedAttributes c of
        None \<Rightarrow> False
      | Some sa \<Rightarrow>
          (case mapE (attributeStDev_d h (mean c) sa) [0..<length sa] of
             Inl e \<Rightarrow> False
           | Inr sds \<Rightarrow> c' = c\<lparr>stDev := Some sds\<rparr>))"

definition fittedCategory_d :: "host \<Rightarrow> nat \<Rightarrow> category \<Rightarrow> bool" where
  "fittedCategory_d h A c =
     (case sortedAttributes c of
        None \<Rightarrow> False
      | Some sa \<Rightarrow>
          length sa = A \<and>
          mean c = Some (map attributeMean_d sa) \<and>
          stDev c = Some (map (\<lambda>vs. stDevOf_d h (attributeMean_d vs) vs) sa))"

text \<open>
  No operation of the mean of the values \<open>rs\<close> rounds: every partial sum, from left to
  right, and the quotient by the number of values are doubles.
\<close>

definition meanIsExact :: "real list \<Rightarrow> bool" where
  "meanIsExact rs =
     ((\<forall>k\<in>{1..length rs}. isDouble (sum_list (take k rs))) \<and> isDouble (arithmeticMean rs))"

text \<open>
  No operation of the standard deviation of the values \<open>rs\<close> rounds: the deviations
  from the mean, their squares as the host computes them, the partial sums of the
  squares, their quotient by the number of values and its square root as the host
  computes it are the exact values.
\<close>

definition squaredDeviations :: "real list \<Rightarrow> real list" where
  "squaredDeviations rs = map (\<lambda>r. (r - arithmeticMean rs)\<^sup>2) rs"

definition stDevIsExact :: "host \<Rightarrow> real list \<Rightarrow> bool" where
  "stDevIsExact h rs =
     ((\<forall>r\<in>set rs. isDouble (r - arithmeticMean rs) \<and>
                  square h (r - arithmeticMean rs) = Fin ((r - arithmeticMean rs)\<^sup>2)) \<and>
      (\<forall>k\<in>{1..length rs}. isDouble (sum_list (take k (squaredDeviations rs)))) \<and>
      isDouble (sum_list (squaredDeviations rs) / real (length rs)) \<and>
      d_sqrt h (Fin (sum_list (squaredDeviations rs) / real (length rs))) =
        Fin (populationStdDev rs))"

text \<open>The double \<open>0.1\<close>.\<close>

definition tenth :: real where
  "tenth = 3602879701896397 / 36028797018963968"

text \<open>
  The sum of \<open>#sumLogPDF\<close> for one class: the first value, to which the others are
  added from left to right.
\<close>

fun leftToRightSum :: "jsnum list \<Rightarrow> jsnum" where
  "leftToRightSum [] = Fin 0"
| "leftToRightSum (v # vs) = foldl d_add v vs"

text \<open>
  The density that \<open>predict\<close> computes for attribute \<open>j\<close> of a row in a category that
  has its statistics, the value it computes for the category from them, and the sum
  over the attributes of the logarithms of the densities.
\<close>

definition densityAt_d :: "host \<Rightarrow> jsnum list \<Rightarrow> category \<Rightarrow> nat \<Rightarrow> jsnum" where
  "densityAt_d h row c j =
     pdf_d h (ToNumber (js_index row j))
         (ToNumber (js_index (the (mean c)) j))
         (ToNumber (js_index (the (stDev c)) j))"

definition classValue_d :: "host \<Rightarrow> jsnum list \<Rightarrow> category \<Rightarrow> jsnum" where
  "classValue_d h row c =
     d_exp h (leftToRightSum (map (\<lambda>j. d_log h (densityAt_d h row c j)) [0..<length row]))"

definition logDensitySum_d :: "host \<Rightarrow> jsnum list \<Rightarrow> jsnum list \<Rightarrow> jsnum list \<Rightarrow> jsnum" where
  "logDensitySum_d h x ms ss =
     leftToRightSum (map (\<lambda>j. d_log h (pdf_d h (x ! j) (ms ! j) (ss ! j))) [0..<length x])"

text \<open>
  \<open>twoAttributes\<close> is what \<open>fit\<close> returns for the rows \<open>[0,0]\<close>, \<open>[2,2]\<close> (class 1) and
  \<open>[4,4]\<close>, \<open>[6,6]\<close> (class 2).
\<close>

definition twoAttributes :: data where
  "twoAttributes =
     [(1, \<lparr>sortedAttributes = Some [[Some (Fin 0), Some (Fin 2)], [Some (Fin 0), Some (Fin 2)]],
           mean = Some [Fin 1, Fin 1], stDev = Some [Fin 1, Fin 1]\<rparr>),
      (2, \<lparr>sortedAttributes = Some [[Some (Fin 4), Some (Fin 6)], [Some (Fin 4), Some (Fin 6)]],
           mean = Some [Fin 5, Fin 5], stDev = Some [Fin 1, Fin 1]\<rparr>)]"

section \<open>Lemmas\<close>

lemma js_gt_irrefl: "\<not> js_gt a a"
  by (cases a) auto

lemma js_gt_not_trans: "js_gt c b \<Longrightarrow> \<not> js_gt a b \<Longrightarrow> \<not> js_gt a c"
  by (cases a; cases b; cases c) auto

lemma js_gt_above: "js_gt c b \<Longrightarrow> \<not> js_gt a b \<Longrightarrow> js_gt c a \<or> a = NaN"
  by (cases a; cases b; cases c) auto

lemma highestStep_inv:
  assumes "highestUpTo vs n m" "n < length vs"
  shows "highestUpTo vs (Suc n) (highestStep vs n m)"
proof -
  from assms have m: "m < length vs" by (auto simp: highestUpTo_def)
  show ?thesis
  proof (cases "js_gt (vs ! n) (vs ! m)")
    case True
    then have "highestStep vs n m = n"
      using assms(2) m by (simp add: highestStep_def js_index_def)
    moreover have "highestUpTo vs (Suc n) n"
      unfolding highestUpTo_def
    proof (intro conjI allI impI)
      show "n < Suc n \<or> n = 0" by simp
    next
      fix j assume "j < Suc n"
      then consider "j = n" | "j < n" by linarith
      then show "\<not> js_gt (vs ! j) (vs ! n)"
      proof cases
        case 1 then show ?thesis by (simp add: js_gt_irrefl)
      next
        case 2
        with assms(1) have "\<not> js_gt (vs ! j) (vs ! m)" by (simp add: highestUpTo_def)
        with True show ?thesis by (rule js_gt_not_trans)
      qed
    next
      fix j assume "j < n"
      with assms(1) have "\<not> js_gt (vs ! j) (vs ! m)" by (simp add: highestUpTo_def)
      with True show "js_gt (vs ! n) (vs ! j) \<or> vs ! j = NaN" by (rule js_gt_above)
    qed
    ultimately show ?thesis by simp
  next
    case False
    then have "highestStep vs n m = m"
      using assms(2) m by (simp add: highestStep_def js_index_def)
    moreover have "highestUpTo vs (Suc n) m"
      using assms(1) False by (auto simp: highestUpTo_def less_Suc_eq)
    ultimately show ?thesis by simp
  qed
qed

lemma highest_fold_inv:
  "n \<le> length vs \<Longrightarrow> highestUpTo vs n (fold (highestStep vs) [0..<n] 0)"
proof (induction n)
  case 0
  then show ?case by (simp add: highestUpTo_def)
next
  case (Suc n)
  then show ?case by (simp add: highestStep_inv)
qed

lemma findHighest_fold:
  "findHighestProbabilityIndex vs = fold (highestStep vs) [0..<length vs] 0"
  unfolding findHighestProbabilityIndex_def highestStep_def ..

lemma findHighest_highest:
  "highestUpTo vs (length vs) (findHighestProbabilityIndex vs)"
  by (simp add: findHighest_fold highest_fold_inv)

lemma highest_fold_zero:
  "n \<le> length vs \<Longrightarrow> \<forall>j<n. \<not> js_gt (vs ! j) (vs ! 0) \<Longrightarrow>
     fold (highestStep vs) [0..<n] 0 = 0"
proof (induction n)
  case 0
  then show ?case by simp
next
  case (Suc n)
  then have "fold (highestStep vs) [0..<n] 0 = 0" by simp
  moreover have "highestStep vs n 0 = 0"
  proof -
    from Suc.prems have "n < length vs" "0 < length vs" "\<not> js_gt (vs ! n) (vs ! 0)"
      by auto
    then show ?thesis by (simp add: highestStep_def js_index_def)
  qed
  ultimately show ?case by simp
qed

lemma findHighest_zero:
  "\<forall>j<length vs. \<not> js_gt (vs ! j) (vs ! 0) \<Longrightarrow> findHighestProbabilityIndex vs = 0"
  by (simp add: findHighest_fold highest_fold_zero)

lemma findHighest_all_NaN:
  assumes that: "\<forall>v\<in>set vs. v = NaN"
  shows "findHighestProbabilityIndex vs = 0"
proof (rule findHighest_zero, intro allI impI)
  fix j assume "j < length vs"
  with that have "vs ! j = NaN" by simp
  then show "\<not> js_gt (vs ! j) (vs ! 0)" by simp
qed

lemma js_add_not_Fin: "\<forall>a. x \<noteq> Fin a \<Longrightarrow> js_add x v \<noteq> Fin s"
  by (cases x; cases v) auto

lemma foldl_js_add_not_Fin: "\<forall>a. x \<noteq> Fin a \<Longrightarrow> foldl js_add x vs \<noteq> Fin s"
proof (induction vs arbitrary: x)
  case Nil
  then show ?case by simp
next
  case (Cons v vs)
  have "\<forall>a. js_add x v \<noteq> Fin a"
    using Cons.prems by (simp add: js_add_not_Fin)
  then show ?case using Cons.IH by simp
qed

lemma foldl_js_add_Fin:
  "foldl js_add (Fin a) vs = Fin s \<Longrightarrow> \<exists>rs. vs = map Fin rs \<and> s = a + sum_list rs"
proof (induction vs arbitrary: a)
  case Nil
  then show ?case by simp
next
  case (Cons v vs)
  show ?case
  proof (cases v)
    case (Fin b)
    with Cons.prems have "foldl js_add (Fin (a + b)) vs = Fin s" by simp
    from Cons.IH [OF this] obtain rs where "vs = map Fin rs" "s = a + b + sum_list rs"
      by blast
    then have "v # vs = map Fin (b # rs) \<and> s = a + sum_list (b # rs)"
      using Fin by simp
    then show ?thesis by (rule exI [of _ "b # rs"])
  next
    case PInf
    with Cons.prems have "foldl js_add PInf vs = Fin s" by simp
    then show ?thesis using foldl_js_add_not_Fin [of PInf vs s] by simp
  next
    case NInf
    with Cons.prems have "foldl js_add NInf vs = Fin s" by simp
    then show ?thesis using foldl_js_add_not_Fin [of NInf vs s] by simp
  next
    case NaN
    with Cons.prems have "foldl js_add NaN vs = Fin s" by simp
    then show ?thesis using foldl_js_add_not_Fin [of NaN vs s] by simp
  qed
qed

lemma foldl_js_add_map_Fin: "foldl js_add (Fin a) (map Fin rs) = Fin (a + sum_list rs)"
  by (induction rs arbitrary: a) (simp_all add: add.assoc)

lemma sum_list_divide: "sum_list (map (\<lambda>r. r / s) rs) = sum_list rs / (s::real)"
  by (induction rs) (simp_all add: add_divide_distrib)

lemma normalize_sum_one:
  assumes "foldl js_add (Fin 0) vs = Fin s" "0 < s"
  shows "foldl js_add (Fin 0) (normalizeProbabilities vs) = Fin 1"
proof -
  from foldl_js_add_Fin [OF assms(1)] obtain rs where rs: "vs = map Fin rs" "s = sum_list rs"
    by auto
  have "normalizeProbabilities vs = map (\<lambda>v. js_div v (Fin s)) vs"
    by (simp add: normalizeProbabilities_def assms(1))
  also have "\<dots> = map Fin (map (\<lambda>r. r / s) rs)"
    using assms(2) by (simp add: rs(1))
  finally have "foldl js_add (Fin 0) (normalizeProbabilities vs) =
                Fin (sum_list (map (\<lambda>r. r / s) rs))"
    by (simp only: foldl_js_add_map_Fin) simp
  also have "\<dots> = Fin 1"
    using assms(2) rs(2) by (simp add: sum_list_divide)
  finally show ?thesis .
qed

lemma length_normalize: "length (normalizeProbabilities vs) = length vs"
  by (simp add: normalizeProbabilities_def)

lemma mapE_Inr: "(\<And>x. x \<in> set xs \<Longrightarrow> f x = Inr (g x)) \<Longrightarrow> mapE f xs = Inr (map g xs)"
  by (induction xs) simp_all

lemma categoryPDF_densityAt:
  "mean c \<noteq> None \<Longrightarrow> stDev c \<noteq> None \<Longrightarrow> categoryPDF row j c = Inr (densityAt row c j)"
  by (auto simp: categoryPDF_def densityAt_def)

lemma calculatePDFPredictions_Inr:
  assumes "hasStatistics d"
  shows "calculatePDFPredictions d row =
           Inr (map (\<lambda>j. map (\<lambda>kc. densityAt row (snd kc) j) d) [0..<length row])"
  unfolding calculatePDFPredictions_def
proof (rule mapE_Inr)
  fix j
  show "mapE (\<lambda>kc. categoryPDF row j (snd kc)) d = Inr (map (\<lambda>kc. densityAt row (snd kc) j) d)"
    using assms by (intro mapE_Inr categoryPDF_densityAt) (auto simp: hasStatistics_def)
qed

lemma sumLogPDF_first_row:
  "m \<le> length r \<Longrightarrow> fold (sumLogPDF_step r) [0..<m] [] = map Some (take m r)"
proof (induction m)
  case 0
  then show ?case by simp
next
  case (Suc m)
  then have m: "m < length r" by simp
  have "sumLogPDF_step r m (map Some (take m r)) = map Some (take m r) @ [Some (r ! m)]"
    using m by (simp add: sumLogPDF_step_def js_load_def js_store_def js_index_def)
  also have "\<dots> = map Some (take (Suc m) r)"
    using m by (simp add: take_Suc_conv_app_nth)
  finally show ?case using Suc by simp
qed

lemma map_Some_nth: "map Some s = map (\<lambda>h. Some (s ! h)) [0..<length s]"
  by (intro nth_equalityI) auto

lemma sumLogPDF_next_row:
  assumes "length s = n" "length r = n"
  shows "m \<le> n \<Longrightarrow>
     fold (sumLogPDF_step r) [0..<m] (map Some s) =
       map (\<lambda>h. Some (if h < m then js_add (s ! h) (r ! h) else s ! h)) [0..<n]"
proof (induction m)
  case 0
  show ?case using assms(1) map_Some_nth [of s] by simp
next
  case (Suc m)
  then have m: "m < n" by simp
  let ?acc = "map (\<lambda>h. Some (if h < m then js_add (s ! h) (r ! h) else s ! h)) [0..<n]"
  have "sumLogPDF_step r m ?acc = ?acc[m := Some (js_add (s ! m) (r ! m))]"
    using m assms by (simp add: sumLogPDF_step_def js_load_def js_store_def js_index_def)
  also have "\<dots> = map (\<lambda>h. Some (if h < Suc m then js_add (s ! h) (r ! h) else s ! h)) [0..<n]"
    using m by (intro nth_equalityI) (auto simp: nth_list_update less_Suc_eq)
  finally show ?case using Suc by simp
qed

lemma sumLogPDF_rows:
  assumes "\<forall>r\<in>set rs. length r = length s"
  shows "fold (\<lambda>logRow acc. fold (sumLogPDF_step logRow) [0..<length s] acc) rs (map Some s) =
           map (\<lambda>h. Some (foldl js_add (s ! h) (map (\<lambda>r. r ! h) rs))) [0..<length s]"
  using assms
proof (induction rs arbitrary: s)
  case Nil
  show ?case using map_Some_nth [of s] by simp
next
  case (Cons r rs)
  let ?s' = "map (\<lambda>h. js_add (s ! h) (r ! h)) [0..<length s]"
  have r: "length r = length s" using Cons.prems by simp
  have step: "fold (sumLogPDF_step r) [0..<length s] (map Some s) = map Some ?s'"
    using sumLogPDF_next_row [of s "length s" r "length s"] r by simp
  have len: "length ?s' = length s" by simp
  have rest: "\<forall>r\<in>set rs. length r = length ?s'" using Cons.prems by simp
  have "fold (\<lambda>logRow acc. fold (sumLogPDF_step logRow) [0..<length s] acc) (r # rs) (map Some s) =
        fold (\<lambda>logRow acc. fold (sumLogPDF_step logRow) [0..<length ?s'] acc) rs (map Some ?s')"
    by (simp add: step)
  also have "\<dots> = map (\<lambda>h. Some (foldl js_add (?s' ! h) (map (\<lambda>r. r ! h) rs))) [0..<length ?s']"
    by (rule Cons.IH [OF rest])
  also have "\<dots> = map (\<lambda>h. Some (foldl js_add (s ! h) (map (\<lambda>r. r ! h) (r # rs)))) [0..<length s]"
    by (intro nth_equalityI) auto
  finally show ?case .
qed

lemma sumLogPDF_rectangular:
  assumes "\<forall>r\<in>set rs. length r = length first"
  shows "sumLogPDF (first # rs) =
           Inr (map (\<lambda>h. Some (foldl js_add (first ! h) (map (\<lambda>r. r ! h) rs))) [0..<length first])"
proof -
  have "fold (sumLogPDF_step first) [0..<length first] [] = map Some first"
    using sumLogPDF_first_row [of "length first" first] by simp
  then show ?thesis
    using sumLogPDF_rows [OF assms] by (simp add: sumLogPDF_def)
qed

lemma js_add_zero_left: "js_add (Fin 0) a = a"
  by (cases a) simp_all

lemma expSumLogPDFOf_Inr:
  assumes "hasStatistics d" "row \<noteq> []"
  shows "expSumLogPDFOf d row = Inr (map (\<lambda>kc. classValue row (snd kc)) d)"
proof -
  let ?L = "\<lambda>j kc. js_log (densityAt row (snd kc) j)"
  let ?n = "length row"
  from assms(2) have n: "0 < ?n" by simp
  have logs: "convertPDFPredictionsToLog
          (map (\<lambda>j. map (\<lambda>kc. densityAt row (snd kc) j) d) [0..<?n]) =
        map (?L 0) d # map (\<lambda>j. map (?L j) d) [1..<?n]"
    using n by (simp add: convertPDFPredictionsToLog_def upt_conv_Cons [of 0])
  have rect: "\<forall>r\<in>set (map (\<lambda>j. map (?L j) d) [1..<?n]). length r = length (map (?L 0) d)"
    by simp
  have "sumLogPDF (map (?L 0) d # map (\<lambda>j. map (?L j) d) [1..<?n]) =
        Inr (map (\<lambda>h. Some (foldl js_add (map (?L 0) d ! h)
               (map (\<lambda>r. r ! h) (map (\<lambda>j. map (?L j) d) [1..<?n]))))
             [0..<length (map (?L 0) d)])"
    by (rule sumLogPDF_rectangular [OF rect])
  also have "\<dots> = Inr (map (\<lambda>h. Some (foldl js_add (Fin 0) (map (\<lambda>j. ?L j (d ! h)) [0..<?n])))
             [0..<length d])"
    using n by (simp add: upt_conv_Cons [of 0] js_add_zero_left comp_def cong: map_cong)
  finally have s: "sumLogPDF (map (?L 0) d # map (\<lambda>j. map (?L j) d) [1..<?n]) =
      Inr (map (\<lambda>h. Some (foldl js_add (Fin 0) (map (\<lambda>j. ?L j (d ! h)) [0..<?n]))) [0..<length d])" .
  have "expSumLogPDFOf d row =
      (case sumLogPDF (convertPDFPredictionsToLog
              (map (\<lambda>j. map (\<lambda>kc. densityAt row (snd kc) j) d) [0..<?n])) of
         Inl e \<Rightarrow> Inl e
       | Inr sumLogs \<Rightarrow> Inr (convertLogToOriginal sumLogs))"
    by (simp add: expSumLogPDFOf_def calculatePDFPredictions_Inr [OF assms(1)])
  also have "\<dots> =
      Inr (convertLogToOriginal
        (map (\<lambda>h. Some (foldl js_add (Fin 0) (map (\<lambda>j. ?L j (d ! h)) [0..<?n]))) [0..<length d]))"
    by (simp only: logs s sum.case)
  also have "\<dots> = Inr (map (\<lambda>h. classValue row (snd (d ! h))) [0..<length d])"
    by (simp add: convertLogToOriginal_def classValue_def comp_def)
  also have "map (\<lambda>h. classValue row (snd (d ! h))) [0..<length d] =
             map (\<lambda>kc. classValue row (snd kc)) d"
    by (intro nth_equalityI) auto
  finally show ?thesis .
qed

lemma normalizedProbabilitiesOf_Inr:
  assumes "hasStatistics d" "row \<noteq> []"
  shows "normalizedProbabilitiesOf d row =
           Inr (normalizeProbabilities (map (\<lambda>kc. classValue row (snd kc)) d))"
  by (simp add: normalizedProbabilitiesOf_def expSumLogPDFOf_Inr [OF assms])

lemma predictRow_Inr:
  assumes "hasStatistics d" "row \<noteq> []"
  shows "predictRow d row =
           Inr (findHighestProbabilityIndex
                  (normalizeProbabilities (map (\<lambda>kc. classValue row (snd kc)) d)))"
  by (simp add: predictRow_def normalizedProbabilitiesOf_Inr [OF assms])

lemma predict_Inr:
  assumes "hasStatistics d" "\<forall>row\<in>set x. row \<noteq> []"
  shows "predict d x =
           Inr (map (\<lambda>row. findHighestProbabilityIndex
                  (normalizeProbabilities (map (\<lambda>kc. classValue row (snd kc)) d))) x)"
  unfolding predict_def
  using assms by (intro mapE_Inr predictRow_Inr) auto

lemma findHighest_less:
  "vs \<noteq> [] \<Longrightarrow> findHighestProbabilityIndex vs < length vs"
  using findHighest_highest [of vs] by (auto simp: highestUpTo_def)

subsection \<open>The object as a sorted list\<close>

lemma map_of_put: "map_of (js_put k v d) = (map_of d)(k \<mapsto> v)"
  by (induction d) auto

lemma keys_put: "set (map fst (js_put k v d)) = insert k (set (map fst d))"
  by (simp add: dom_map_of_conv_image_fst [symmetric] map_of_put)

lemma set_put: "set (js_put k v d) \<subseteq> insert (k, v) (set d)"
  by (induction d) (auto split: if_splits)

lemma sorted_put:
  "sorted_wrt (<) (map fst d) \<Longrightarrow> sorted_wrt (<) (map fst (js_put k v d))"
proof (induction d)
  case Nil
  then show ?case by simp
next
  case (Cons kv d)
  obtain k' v' where kv: "kv = (k', v')" by (cases kv)
  from Cons.prems have above: "\<forall>x\<in>set (map fst d). k' < x" and "sorted_wrt (<) (map fst d)"
    by (simp_all add: kv)
  then have "sorted_wrt (<) (map fst (js_put k v d))" using Cons.IH by simp
  moreover have "k' < k \<Longrightarrow> \<forall>x\<in>set (map fst (js_put k v d)). k' < x"
    using above by (simp only: keys_put) simp
  ultimately show ?case using Cons.prems by (auto simp: kv)
qed

lemma keys_put_present:
  "sorted_wrt (<) (map fst d) \<Longrightarrow> k \<in> set (map fst d) \<Longrightarrow> map fst (js_put k v d) = map fst d"
  by (induction d) fastforce+

lemma length_put_le: "length (js_put k v d) \<le> Suc (length d)"
  by (induction d) auto

lemma js_get_Some_key: "js_get d k = Some c \<Longrightarrow> k \<in> set (map fst d)"
  unfolding js_get_def by (auto dest!: map_of_SomeD intro: rev_image_eqI)

lemma js_get_Some_mem: "js_get d k = Some c \<Longrightarrow> (k, c) \<in> set d"
  unfolding js_get_def by (rule map_of_SomeD)

subsection \<open>Loops that may throw\<close>

lemma foldE_append:
  "foldE f (xs @ ys) s = (case foldE f xs s of Inl e \<Rightarrow> Inl e | Inr s' \<Rightarrow> foldE f ys s')"
  by (induction xs arbitrary: s) (auto split: sum.splits)

lemma foldE_invariant:
  assumes "foldE f xs s = Inr s'" "P s"
    and "\<And>x t t'. P t \<Longrightarrow> f x t = Inr t' \<Longrightarrow> P t'"
  shows "P s'"
  using assms(1,2)
proof (induction xs arbitrary: s)
  case Nil
  then show ?case by simp
next
  case (Cons x xs)
  then show ?case using assms(3) by (auto split: sum.splits)
qed

lemma foldE_steps_defined:
  assumes "foldE f xs s = Inr s'" "x \<in> set xs" "P s"
    and "\<And>x t t'. P t \<Longrightarrow> f x t = Inr t' \<Longrightarrow> P t'"
  shows "\<exists>t t'. P t \<and> f x t = Inr t'"
  using assms(1,2,3)
proof (induction xs arbitrary: s)
  case Nil
  then show ?case by simp
next
  case (Cons a xs)
  from Cons.prems(1) obtain t where t: "f a s = Inr t" "foldE f xs t = Inr s'"
    by (auto split: sum.splits)
  show ?case
  proof (cases "x = a")
    case True
    then show ?thesis using t(1) Cons.prems(3) by blast
  next
    case False
    with Cons.prems(2) have "x \<in> set xs" by simp
    moreover have "P t" using assms(4) [OF Cons.prems(3) t(1)] .
    ultimately show ?thesis using Cons.IH t(2) by blast
  qed
qed

subsection \<open>The statistics passes\<close>

lemma meanEach_all2:
  "meanEachAttributeCategory d = Inr d' \<Longrightarrow>
     list_all2 (\<lambda>kc kc'. fst kc' = fst kc \<and> withMean (snd kc) (snd kc')) d d'"
proof (induction d arbitrary: d')
  case Nil
  then show ?case by simp
next
  case (Cons kc d)
  obtain k c where kc: "kc = (k, c)" by (cases kc)
  from Cons.prems obtain sa d'' where
    "sortedAttributes c = Some sa" "meanEachAttributeCategory d = Inr d''"
    "d' = (k, c\<lparr>mean := Some (map attributeMean sa)\<rparr>) # d''"
    by (auto simp: kc split: option.splits sum.splits)
  then show ?case using Cons.IH by (simp add: kc withMean_def)
qed

lemma squaredDifferences_Some:
  "squaredDifferences (Some ms) i vs acc =
     Inr (foldl (\<lambda>a v. js_add a (js_pow2 (js_sub (ToNumber v) (ToNumber (js_index ms i))))) acc vs)"
  by (induction vs arbitrary: acc) simp_all

lemma attributeStDev_Some:
  "attributeStDev (Some ms) sa i = Inr (stDevOf (ToNumber (js_index ms i)) (sa ! i))"
  by (simp add: attributeStDev_def squaredDifferences_Some stDevOf_def)

lemma standardDeviation_all2:
  "standardDeviation d = Inr d' \<Longrightarrow>
     list_all2 (\<lambda>kc kc'. fst kc' = fst kc \<and> withStDev (snd kc) (snd kc')) d d'"
proof (induction d arbitrary: d')
  case Nil
  then show ?case by simp
next
  case (Cons kc d)
  obtain k c where kc: "kc = (k, c)" by (cases kc)
  from Cons.prems obtain sa sds d'' where
    "sortedAttributes c = Some sa"
    "mapE (attributeStDev (mean c) sa) [0..<length sa] = Inr sds"
    "standardDeviation d = Inr d''"
    "d' = (k, c\<lparr>stDev := Some sds\<rparr>) # d''"
    by (auto simp: kc split: option.splits sum.splits)
  then show ?case using Cons.IH by (simp add: kc withStDev_def)
qed

lemma withMean_withStDev_fitted:
  assumes "withMean c c'" "withStDev c' c''"
    and "\<And>sa. sortedAttributes c = Some sa \<Longrightarrow> length sa = A"
  shows "fittedCategory A c''"
proof -
  from assms(1) obtain sa where sa: "sortedAttributes c = Some sa"
    and c': "c' = c\<lparr>mean := Some (map attributeMean sa)\<rparr>"
    by (auto simp: withMean_def split: option.splits)
  have "mapE (attributeStDev (Some (map attributeMean sa)) sa) [0..<length sa] =
        Inr (map (\<lambda>i. stDevOf (attributeMean (sa ! i)) (sa ! i)) [0..<length sa])"
    by (rule mapE_Inr) (simp add: attributeStDev_Some js_index_def)
  also have "map (\<lambda>i. stDevOf (attributeMean (sa ! i)) (sa ! i)) [0..<length sa] =
             map (\<lambda>vs. stDevOf (attributeMean vs) vs) sa"
    by (intro nth_equalityI) auto
  finally have "c'' = c'\<lparr>stDev := Some (map (\<lambda>vs. stDevOf (attributeMean vs) vs) sa)\<rparr>"
    using assms(2) by (simp add: withStDev_def c' sa)
  then show ?thesis using assms(3) [OF sa] by (simp add: fittedCategory_def c' sa)
qed

lemma passes_fitted:
  assumes "meanEachAttributeCategory d = Inr d'" "standardDeviation d' = Inr d''"
    and "\<forall>kc\<in>set d. \<forall>sa. sortedAttributes (snd kc) = Some sa \<longrightarrow> length sa = A"
  shows "map fst d'' = map fst d \<and> (\<forall>kc\<in>set d''. fittedCategory A (snd kc))"
proof -
  note m = meanEach_all2 [OF assms(1)] and s = standardDeviation_all2 [OF assms(2)]
  have len: "length d' = length d" "length d'' = length d"
    using m s by (simp_all add: list_all2_lengthD)
  have keys: "map fst d'' = map fst d"
    using len list_all2_nthD [OF m] list_all2_nthD [OF s]
    by (intro nth_equalityI) simp_all
  have "fittedCategory A (snd kc)" if "kc \<in> set d''" for kc
  proof -
    from that obtain i where i: "i < length d''" "kc = d'' ! i"
      by (auto simp: in_set_conv_nth)
    then have id: "i < length d" "i < length d'" using len by simp_all
    have "withMean (snd (d ! i)) (snd (d' ! i))"
      using list_all2_nthD [OF m id(1)] by simp
    moreover have "withStDev (snd (d' ! i)) (snd (d'' ! i))"
      using list_all2_nthD [OF s id(2)] by simp
    moreover have "\<And>sa. sortedAttributes (snd (d ! i)) = Some sa \<Longrightarrow> length sa = A"
      using assms(3) id(1) by (meson nth_mem)
    ultimately show ?thesis unfolding i(2) by (rule withMean_withStDev_fitted)
  qed
  with keys show ?thesis by blast
qed

subsection \<open>Invariants of \<open>#formatData\<close>\<close>

lemma arraysOf_put:
  assumes "arraysOf A d" "\<And>sa. sortedAttributes v = Some sa \<Longrightarrow> length sa = A"
  shows "arraysOf A (js_put k v d)"
  unfolding arraysOf_def
proof (intro ballI allI impI)
  fix kc sa assume kc: "kc \<in> set (js_put k v d)" and sa: "sortedAttributes (snd kc) = Some sa"
  from kc set_put [of k v d] have "kc = (k, v) \<or> kc \<in> set d" by auto
  then show "length sa = A"
    using assms sa by (auto simp: arraysOf_def)
qed

lemma addCategories_inv:
  assumes "addCategories ls n d = (n', d')" "keysSorted d" "\<forall>kc\<in>set d. snd kc = emptyObject"
  shows "keysSorted d' \<and> (\<forall>kc\<in>set d'. snd kc = emptyObject) \<and> length d' + n \<le> length d + n'"
  using assms
proof (induction ls arbitrary: n d)
  case Nil
  then show ?case by simp
next
  case (Cons l ls)
  show ?case
  proof (cases "l > n")
    case True
    let ?d = "js_put l emptyObject d"
    from True Cons.prems(1) have run: "addCategories ls (n + 1) ?d = (n', d')" by simp
    have 1: "keysSorted ?d" using Cons.prems(2) by (simp add: keysSorted_def sorted_put)
    have 2: "\<forall>kc\<in>set ?d. snd kc = emptyObject"
      using Cons.prems(3) set_put [of l emptyObject d] by auto
    from Cons.IH [OF run 1 2] have
      "keysSorted d'" "\<forall>kc\<in>set d'. snd kc = emptyObject" "length d' + (n + 1) \<le> length ?d + n'"
      by simp_all
    moreover have "length ?d \<le> Suc (length d)" by (rule length_put_le)
    ultimately show ?thesis by simp
  next
    case False
    with Cons.prems(1) have run: "addCategories ls n d = (n', d')" by simp
    from Cons.IH [OF run Cons.prems(2,3)] show ?thesis .
  qed
qed

lemma formatInvD:
  assumes "formatInv A ks d"
  shows "sorted_wrt (<) (map fst d)" and "map fst d = ks" and "arraysOf A d"
  using assms unfolding formatInv_def keysSorted_def by blast+

lemma formatInvI:
  "sorted_wrt (<) (map fst d) \<Longrightarrow> map fst d = ks \<Longrightarrow> arraysOf A d \<Longrightarrow> formatInv A ks d"
  by (simp add: formatInv_def keysSorted_def)

lemma addSortedAttributes_inv:
  assumes "formatInv A ks d" "addSortedAttributes A i d = Inr d'"
  shows "formatInv A ks d'" and "i \<in> set ks"
proof -
  note inv = formatInvD [OF assms(1)]
  from assms(2) obtain c where c: "js_get d i = Some c"
    and d': "d' = js_put i (c\<lparr>sortedAttributes := Some (replicate A [])\<rparr>) d"
    by (auto simp: addSortedAttributes_def split: option.splits)
  from c have i: "i \<in> set (map fst d)" by (rule js_get_Some_key)
  then show "i \<in> set ks" by (simp only: inv(2))
  have arr: "arraysOf A d'"
    unfolding d' using inv(3) by (rule arraysOf_put) simp
  have keys: "map fst d' = map fst d"
    unfolding d' using inv(1) i by (rule keys_put_present)
  show "formatInv A ks d'"
    using inv(1,2) arr by (intro formatInvI) (simp_all only: keys)
qed

lemma pushAttribute_inv:
  assumes "formatInv A ks d" "pushAttribute category row j d = Inr d'"
  shows "formatInv A ks d'"
proof -
  note inv = formatInvD [OF assms(1)]
  from assms(2) obtain k c sa where c: "js_get d k = Some c" "sortedAttributes c = Some sa"
    and d': "d' = js_put k (c\<lparr>sortedAttributes := Some (sa[j := sa ! j @ [js_index row j]])\<rparr>) d"
    by (auto simp: pushAttribute_def split: option.splits if_splits)
  from c(1) have k: "k \<in> set (map fst d)" by (rule js_get_Some_key)
  have "length sa = A"
    using inv(3) js_get_Some_mem [OF c(1)] c(2) by (auto simp: arraysOf_def)
  then have arr: "arraysOf A d'"
    unfolding d' using inv(3) by (intro arraysOf_put) auto
  have keys: "map fst d' = map fst d"
    unfolding d' using inv(1) k by (rule keys_put_present)
  show ?thesis
    using inv(1,2) arr by (intro formatInvI) (simp_all only: keys)
qed

lemma pushRow_inv:
  assumes "formatInv A ks d" "pushRow X y n i d = Inr d'"
  shows "formatInv A ks d'"
  using assms(2) assms(1) unfolding pushRow_def
  by (rule foldE_invariant) (rule pushAttribute_inv)

lemma sorted_keys_range:
  assumes "sorted_wrt (<) ks" "length ks \<le> n" "{1..n} \<subseteq> set ks"
  shows "ks = [1..<n + 1]"
proof -
  from assms(1) have sd: "sorted ks" "distinct ks" by (simp_all add: strict_sorted_iff)
  then have "card (set ks) = length ks" by (simp add: distinct_card)
  with assms(2) have c: "card (set ks) \<le> card {1..n}" by simp
  have "finite (set ks)" by simp
  from this assms(3) c have "{1..n} = set ks" by (rule card_seteq)
  also have "{1..n} = set [1..<n + 1]" by auto
  finally have "set [1..<n + 1] = set ks" .
  moreover have "sorted [1..<n + 1]" by (rule sorted_upt)
  moreover have "distinct [1..<n + 1]" by (rule distinct_upt)
  ultimately show ?thesis using sd by (metis sorted_distinct_set_unique)
qed

lemma formatData_shape:
  assumes "formatData X y = Inr d"
  shows "X \<noteq> []" and "map fst d = [1..<length d + 1]" and "arraysOf (length (hd X)) d"
proof -
  obtain n d1 where ac: "addCategories y 0 [] = (n, d1)" by (cases "addCategories y 0 []")
  from assms ac obtain first rest d2 where X: "X = first # rest"
    and l2: "foldE (addSortedAttributes (length first)) [1..<n + 1] d1 = Inr d2"
    and l3: "foldE (pushRow X y (length first)) [0..<length X] d2 = Inr d"
    by (auto simp: formatData_def split: list.splits sum.splits)
  show "X \<noteq> []" using X by simp
  let ?A = "length first"
  let ?ks = "map fst d1"
  from addCategories_inv [OF ac] have d1: "keysSorted d1" "\<forall>kc\<in>set d1. snd kc = emptyObject"
    "length d1 \<le> n" by (simp_all add: keysSorted_def)
  have inv1: "formatInv ?A ?ks d1"
    using d1(1,2) by (simp add: formatInv_def arraysOf_def emptyObject_def)
  have inv2: "formatInv ?A ?ks d2"
    using l2 inv1 by (rule foldE_invariant) (rule addSortedAttributes_inv)
  have inv3: "formatInv ?A ?ks d"
    using l3 inv2 by (rule foldE_invariant) (rule pushRow_inv)
  have ks: "{1..n} \<subseteq> set ?ks"
  proof
    fix i assume "i \<in> {1..n}"
    then have "i \<in> set [1..<n + 1]" by auto
    with l2 have "\<exists>t t'. formatInv ?A ?ks t \<and> addSortedAttributes ?A i t = Inr t'"
      using inv1 by (rule foldE_steps_defined) (rule addSortedAttributes_inv(1))
    then obtain t t' where "formatInv ?A ?ks t" "addSortedAttributes ?A i t = Inr t'" by blast
    then show "i \<in> set ?ks" by (rule addSortedAttributes_inv(2))
  qed
  from d1(1) have "sorted_wrt (<) ?ks" by (simp only: keysSorted_def)
  from this d1(3) ks have "?ks = [1..<n + 1]"
    by (intro sorted_keys_range) simp_all
  moreover have "map fst d = ?ks" using inv3 by (simp add: formatInv_def)
  ultimately have "map fst d = [1..<n + 1]" by simp
  moreover from this have "length (map fst d) = length [1..<n + 1]" by (rule arg_cong)
  then have "length d = n" by simp
  ultimately show "map fst d = [1..<length d + 1]" by simp
  show "arraysOf (length (hd X)) d" using inv3 X by (simp add: formatInv_def)
qed

lemma fit_shape:
  assumes "fit X y = Inr d"
  shows "X \<noteq> []" and "map fst d = [1..<length d + 1]"
    and "\<forall>kc\<in>set d. fittedCategory (length (hd X)) (snd kc)"
proof -
  from assms obtain d0 d1 where f: "formatData X y = Inr d0"
    and m: "meanEachAttributeCategory d0 = Inr d1" and s: "standardDeviation d1 = Inr d"
    by (auto simp: fit_def split: sum.splits)
  note shape = formatData_shape [OF f]
  show "X \<noteq> []" by (rule shape(1))
  from passes_fitted [OF m s, of "length (hd X)"] shape(3)
  have p: "map fst d = map fst d0" "\<forall>kc\<in>set d. fittedCategory (length (hd X)) (snd kc)"
    by (simp_all add: arraysOf_def)
  then show "\<forall>kc\<in>set d. fittedCategory (length (hd X)) (snd kc)" by simp
  from p(1) have "length (map fst d) = length (map fst d0)" by (rule arg_cong)
  then have len: "length d = length d0" by simp
  have "map fst d = [1..<length d0 + 1]" using p(1) shape(2) by (rule trans)
  then show "map fst d = [1..<length d + 1]" by (simp only: len)
qed

lemma pdf_finite:
  "\<sigma> \<noteq> 0 \<Longrightarrow> pdf (Fin x) (Fin \<mu>) (Fin \<sigma>) = Fin (gaussianDensity x \<mu> \<sigma>)"
  by (simp add: pdf_def js_sub_def gaussianDensity_def)

lemma pdf_zero_stDev: "pdf x m (Fin 0) = NaN"
proof -
  have "js_mul (js_sqrt (js_mul (Fin 2) (Fin pi))) (Fin 0) = Fin 0" by simp
  then have pre: "js_div (Fin 1) (js_mul (js_sqrt (js_mul (Fin 2) (Fin pi))) (Fin 0)) = PInf"
    by simp
  have den: "js_mul (Fin 2) (js_pow2 (Fin 0)) = Fin 0" by simp
  have "js_mul PInf (js_exp (js_div (js_neg (js_pow2 v)) (Fin 0))) = NaN" for v
    by (cases v) simp_all
  then show ?thesis unfolding pdf_def pre den by simp
qed

lemma foldl_js_add_NaN_start: "foldl js_add NaN vs = NaN"
  by (induction vs) simp_all

lemma js_add_NaN_right: "js_add a NaN = NaN"
  by (cases a) simp_all

lemma foldl_js_add_NaN: "NaN \<in> set vs \<Longrightarrow> foldl js_add a vs = NaN"
proof (induction vs arbitrary: a)
  case Nil
  then show ?case by simp
next
  case (Cons v vs)
  then show ?case
    by (cases "v = NaN") (simp_all add: js_add_NaN_right foldl_js_add_NaN_start)
qed

lemma fitted_statistics:
  assumes "fittedCategory A c"
  obtains sa ms ss where "sortedAttributes c = Some sa" "mean c = Some ms" "stDev c = Some ss"
    "length sa = A" "length ms = A" "length ss = A"
    "ms = map attributeMean sa" "ss = map (\<lambda>vs. stDevOf (attributeMean vs) vs) sa"
  using assms by (auto simp: fittedCategory_def split: option.splits)

lemma fitted_hasStatistics:
  "\<forall>kc\<in>set d. fittedCategory A (snd kc) \<Longrightarrow> hasStatistics d"
  unfolding hasStatistics_def by (auto elim!: fitted_statistics)

lemma classValue_logDensitySum:
  assumes "mean c = Some ms" "stDev c = Some ss" "length ms = length row" "length ss = length row"
  shows "classValue row c = js_exp (logDensitySum row ms ss)"
proof -
  have eq: "map (\<lambda>j. js_log (densityAt row c j)) [0..<length row] =
        map (\<lambda>j. js_log (pdf (row ! j) (ms ! j) (ss ! j))) [0..<length row]"
    using assms by (intro map_cong) (simp_all add: densityAt_def js_index_def)
  show ?thesis unfolding classValue_def logDensitySum_def eq ..
qed

lemma classValue_zero_stDev:
  assumes "stDev c = Some ss" "j < length ss" "ss ! j = Fin 0" "j < length row"
  shows "classValue row c = NaN"
proof -
  have "densityAt row c j = NaN"
    using assms by (simp add: densityAt_def js_index_def pdf_zero_stDev)
  then have "js_log (densityAt row c j) = NaN" by simp
  moreover have "j \<in> set [0..<length row]" using assms(4) by simp
  ultimately have "NaN \<in> set (map (\<lambda>j. js_log (densityAt row c j)) [0..<length row])"
    by (metis (mono_tags, lifting) image_eqI set_map)
  then show ?thesis by (simp add: classValue_def foldl_js_add_NaN)
qed

lemma normalize_NaN:
  assumes "NaN \<in> set vs"
  shows "\<forall>v\<in>set (normalizeProbabilities vs). v = NaN"
proof -
  have "foldl js_add (Fin 0) vs = NaN" using assms by (rule foldl_js_add_NaN)
  moreover have "js_div v NaN = NaN" for v by (cases v) simp_all
  ultimately show ?thesis by (simp add: normalizeProbabilities_def)
qed

lemmas fit_eval = fit_def formatData_def addSortedAttributes_def pushRow_def pushAttribute_def
  js_get_def js_index_def emptyObject_def attributeMean_def attributeStDev_def js_sub_def upt_conv_Cons

lemmas predict_eval = predict_def predictRow_def normalizedProbabilitiesOf_def expSumLogPDFOf_def
  calculatePDFPredictions_def categoryPDF_def convertPDFPredictionsToLog_def sumLogPDF_def sumLogPDF_step_def
  js_load_def js_store_def convertLogToOriginal_def normalizeProbabilities_def findHighestProbabilityIndex_def
  js_index_def pdf_def js_sub_def upt_conv_Cons

lemma fit_twoClasses: "fit [[Fin 0], [Fin 2], [Fin 4], [Fin 6]] [1, 1, 2, 2] = Inr twoClasses"
  by (simp add: fit_eval twoClasses_def)

lemma expSumLogPDFOf_twoClasses:
  "expSumLogPDFOf twoClasses [Fin 1] = Inr [Fin (1 / sqrt (2 * pi)), Fin (exp (- 8) / sqrt (2 * pi))]"
  by (simp add: predict_eval twoClasses_def divide_less_0_iff)

subsection \<open>mean and standard deviation over finite values\<close>

lemma attributeSum_finite:
  "foldl (\<lambda>s v. js_add s (ToNumber v)) (Fin a) (map (\<lambda>r. Some (Fin r)) rs) = Fin (a + sum_list rs)"
  by (induction rs arbitrary: a) (simp_all add: add.assoc)

lemma attributeMean_finite:
  "rs \<noteq> [] \<Longrightarrow> attributeMean (map (\<lambda>r. Some (Fin r)) rs) = Fin (arithmeticMean rs)"
  by (simp add: attributeMean_def attributeSum_finite arithmeticMean_def)

lemma squares_finite:
  "foldl (\<lambda>a v. js_add a (js_pow2 (js_sub (ToNumber v) (Fin m)))) (Fin a) (map (\<lambda>r. Some (Fin r)) rs) =
     Fin (a + (\<Sum>r\<leftarrow>rs. (r - m)\<^sup>2))"
  by (induction rs arbitrary: a) (simp_all add: add.assoc js_sub_def)

lemma stDevOf_finite:
  assumes "rs \<noteq> []"
  shows "stDevOf (Fin m) (map (\<lambda>r. Some (Fin r)) rs) =
           Fin (sqrt ((\<Sum>r\<leftarrow>rs. (r - m)\<^sup>2) / real (length rs)))"
proof -
  have "0 \<le> (\<Sum>r\<leftarrow>rs. (r - m)\<^sup>2)" by (rule sum_list_nonneg) auto
  then have "\<not> (\<Sum>r\<leftarrow>rs. (r - m)\<^sup>2) / real (length rs) < 0"
    by (simp add: not_less)
  then show ?thesis using assms by (simp add: stDevOf_def squares_finite)
qed

lemma firstMaximum_findHighest:
  "vs \<noteq> [] \<Longrightarrow> firstMaximum vs (findHighestProbabilityIndex vs)"
  using findHighest_highest [of vs] by (auto simp: highestUpTo_def firstMaximum_def)

lemma firstMaximum_finite:
  assumes "firstMaximum (map Fin rs) i"
  shows "(\<forall>j<length rs. rs ! j \<le> rs ! i) \<and> (\<forall>j<i. rs ! j < rs ! i)"
  using assms by (auto simp: firstMaximum_def not_less)

subsection \<open>Accuracy scoring\<close>

lemma count_fold_filter:
  "fold (\<lambda>i c. if P i then c + 1 else c) xs (n::nat) = n + length (filter P xs)"
  by (induction xs arbitrary: n) auto

lemma countCorrectly_filter:
  "countCorrectlyClassifiedPredictions p y n =
     length (filter (classifiedCorrectly p y) [0..<n])"
  by (simp add: countCorrectlyClassifiedPredictions_def count_fold_filter)

lemma classifiedCorrectly_in_range:
  "i < length p \<Longrightarrow> i < length y \<Longrightarrow>
     classifiedCorrectly p y i = (y ! i = p ! i + 1)"
  by (simp add: classifiedCorrectly_def js_index_def)

lemma countCorrectly_matching:
  assumes "length p = length y"
  shows "countCorrectlyClassifiedPredictions p y (length p) = length (matchingIndices p y)"
proof -
  have "filter (classifiedCorrectly p y) [0..<length p] =
        filter (\<lambda>i. y ! i = p ! i + 1) [0..<length p]"
    using assms by (intro filter_cong) (auto simp: classifiedCorrectly_in_range)
  then show ?thesis
    by (simp add: countCorrectly_filter matchingIndices_def)
qed

lemma matchingIndices_le: "length (matchingIndices p y) \<le> length p"
  unfolding matchingIndices_def
  by (rule order_trans [OF length_filter_le]) simp

subsection \<open>\<open>#formatData\<close> on labels in first-appearance order\<close>

lemma table_Suc: "table f (Suc n) = table f n @ [(Suc n, f (Suc n))]"
  by (simp add: table_def)

lemma table_0: "table f 0 = []"
  by (simp add: table_def)

lemma keys_table: "map fst (table f n) = [1..<Suc n]"
  by (simp add: table_def comp_def del: upt_Suc)

lemma length_table: "length (table f n) = n"
  by (simp add: table_def del: upt_Suc)

lemma nth_table: "i < n \<Longrightarrow> table f n ! i = (Suc i, f (Suc i))"
  by (simp add: table_def del: upt_Suc)

lemma table_cong: "(\<And>k. 1 \<le> k \<Longrightarrow> k \<le> n \<Longrightarrow> f k = g k) \<Longrightarrow> table f n = table g n"
  by (simp add: table_def del: upt_Suc)

lemma js_get_table: "js_get (table f n) k = (if 1 \<le> k \<and> k \<le> n then Some (f k) else None)"
proof (induction n)
  case 0
  then show ?case by (simp add: table_0 js_get_def)
next
  case (Suc n)
  then show ?case by (auto simp: table_Suc js_get_def map_add_def split: option.splits)
qed

lemma js_put_append: "\<forall>k'\<in>set (map fst d). k' < k \<Longrightarrow> js_put k v d = d @ [(k, v)]"
  by (induction d) auto

lemma js_put_table_new: "js_put (Suc n) v (table f n) = table (f(Suc n := v)) (Suc n)"
proof -
  have 1: "js_put (Suc n) v (table f n) = table f n @ [(Suc n, v)]"
    by (rule js_put_append) (simp add: keys_table del: upt_Suc)
  have 2: "table f n = table (f(Suc n := v)) n" by (rule table_cong) simp
  have "table (f(Suc n := v)) (Suc n) = table (f(Suc n := v)) n @ [(Suc n, v)]"
    by (simp add: table_Suc)
  then show ?thesis by (simp only: 1 2 [symmetric])
qed

lemma js_put_map:
  "sorted_wrt (<) ks \<Longrightarrow> k \<in> set ks \<Longrightarrow>
     js_put k v (map (\<lambda>k. (k, f k)) ks) = map (\<lambda>k'. (k', (f(k := v)) k')) ks"
proof (induction ks)
  case Nil
  then show ?case by simp
next
  case (Cons a ks)
  from Cons.prems(1) have above: "\<forall>x\<in>set ks. a < x" and sorted: "sorted_wrt (<) ks" by simp_all
  show ?case
  proof (cases "k = a")
    case True
    with above have "k \<notin> set ks" by auto
    then have "map (\<lambda>k'. (k', (f(k := v)) k')) ks = map (\<lambda>k. (k, f k)) ks"
      by (intro map_cong) auto
    then show ?thesis using True by simp
  next
    case False
    with Cons.prems(2) have k: "k \<in> set ks" by simp
    with above have "a < k" by simp
    then show ?thesis using False Cons.IH [OF sorted k] by simp
  qed
qed

lemma js_put_table: "1 \<le> k \<Longrightarrow> k \<le> n \<Longrightarrow> js_put k v (table f n) = table (f(k := v)) n"
  unfolding table_def
  by (rule js_put_map) (simp_all add: strict_sorted_iff del: upt_Suc)

lemma replicate_map_const: "map (\<lambda>x. k) xs = replicate (length xs) k"
  by (induction xs) simp_all

lemma firstAppearanceOrder_next:
  assumes "firstAppearanceOrder (pre @ l # ls)" "set pre = {1..n}"
  shows "1 \<le> l" and "l \<le> Suc n"
proof -
  have i: "length pre \<in> {0..<length (pre @ l # ls)}" by simp
  from assms(1) [unfolded firstAppearanceOrder_def, rule_format, OF i]
  have l: "1 \<le> l" and seen: "\<forall>c\<in>{1..<l}. c \<in> set pre" by simp_all
  show "1 \<le> l" by (rule l)
  show "l \<le> Suc n"
  proof (rule ccontr)
    assume "\<not> l \<le> Suc n"
    then have "Suc n \<in> {1..<l}" by simp
    with seen have "Suc n \<in> set pre" by blast
    with assms(2) show False by simp
  qed
qed

lemma addCategories_ordered:
  assumes "set pre = {1..n}" "firstAppearanceOrder (pre @ ls)"
  shows "\<exists>K. addCategories ls n (table (\<lambda>k. emptyObject) n) = (K, table (\<lambda>k. emptyObject) K) \<and>
             set (pre @ ls) = {1..K}"
  using assms
proof (induction ls arbitrary: pre n)
  case Nil
  have "addCategories [] n (table (\<lambda>k. emptyObject) n) = (n, table (\<lambda>k. emptyObject) n)"
    by simp
  moreover have "set (pre @ []) = {1..n}" using Nil.prems(1) by simp
  ultimately show ?case by blast
next
  case (Cons l ls)
  note l = firstAppearanceOrder_next [OF Cons.prems(2,1)]
  have order: "firstAppearanceOrder ((pre @ [l]) @ ls)" using Cons.prems(2) by simp
  have app: "(pre @ [l]) @ ls = pre @ l # ls" by simp
  show ?case
  proof (cases "l > n")
    case True
    with l(2) have ln: "l = Suc n" by simp
    have "set (pre @ [l]) = insert (Suc n) (set pre)" by (simp add: ln)
    also have "\<dots> = insert (Suc n) {1..n}" by (simp only: Cons.prems(1))
    also have "\<dots> = {1..Suc n}" by (simp add: atLeastAtMostSuc_conv)
    finally have seen: "set (pre @ [l]) = {1..Suc n}" .
    have "js_put (Suc n) emptyObject (table (\<lambda>k. emptyObject) n) =
          table ((\<lambda>k. emptyObject)(Suc n := emptyObject)) (Suc n)"
      by (rule js_put_table_new)
    also have "\<dots> = table (\<lambda>k. emptyObject) (Suc n)" by (rule table_cong) simp
    finally have put: "js_put (Suc n) emptyObject (table (\<lambda>k. emptyObject) n) =
          table (\<lambda>k. emptyObject) (Suc n)" .
    from Cons.IH [OF seen order] obtain K where K:
      "addCategories ls (Suc n) (table (\<lambda>k. emptyObject) (Suc n)) = (K, table (\<lambda>k. emptyObject) K)"
      "set ((pre @ [l]) @ ls) = {1..K}" by blast
    have "addCategories (l # ls) n (table (\<lambda>k. emptyObject) n) =
        addCategories ls (Suc n) (js_put (Suc n) emptyObject (table (\<lambda>k. emptyObject) n))"
      using True by (simp add: ln)
    also have "\<dots> = (K, table (\<lambda>k. emptyObject) K)" by (simp only: put K(1))
    finally have "addCategories (l # ls) n (table (\<lambda>k. emptyObject) n) =
        (K, table (\<lambda>k. emptyObject) K) \<and> set (pre @ l # ls) = {1..K}"
      using K(2) by (simp only: app) 
    then show ?thesis by (rule exI)
  next
    case False
    then have "l \<le> n" by simp
    with l(1) have "l \<in> {1..n}" by simp
    then have absorb: "insert l {1..n} = {1..n}" by (rule insert_absorb)
    have "set (pre @ [l]) = insert l (set pre)" by simp
    also have "\<dots> = {1..n}" by (simp only: Cons.prems(1) absorb)
    finally have seen: "set (pre @ [l]) = {1..n}" .
    from Cons.IH [OF seen order] obtain K where K:
      "addCategories ls n (table (\<lambda>k. emptyObject) n) = (K, table (\<lambda>k. emptyObject) K)"
      "set ((pre @ [l]) @ ls) = {1..K}" by blast
    have "addCategories (l # ls) n (table (\<lambda>k. emptyObject) n) =
        addCategories ls n (table (\<lambda>k. emptyObject) n)"
      using False by simp
    also have "\<dots> = (K, table (\<lambda>k. emptyObject) K)" by (rule K(1))
    finally have "addCategories (l # ls) n (table (\<lambda>k. emptyObject) n) =
        (K, table (\<lambda>k. emptyObject) K) \<and> set (pre @ l # ls) = {1..K}"
      using K(2) by (simp only: app)
    then show ?thesis by (rule exI)
  qed
qed

lemma foldE_single: "foldE f [x] s = f x s"
  by (simp split: sum.splits)

lemma addSortedAttributes_table:
  "m \<le> n \<Longrightarrow>
     foldE (addSortedAttributes A) [1..<Suc m] (table f n) =
       Inr (table (\<lambda>k. if k \<le> m then (f k)\<lparr>sortedAttributes := Some (replicate A [])\<rparr> else f k) n)"
proof (induction m)
  case 0
  have "table f n = table (\<lambda>k. if k \<le> 0 then (f k)\<lparr>sortedAttributes := Some (replicate A [])\<rparr> else f k) n"
    by (rule table_cong) simp
  then show ?case by simp
next
  case (Suc m)
  let ?g = "\<lambda>k. if k \<le> m then (f k)\<lparr>sortedAttributes := Some (replicate A [])\<rparr> else f k"
  from Suc.prems have le: "m \<le> n" by simp
  note IH = Suc.IH [OF le]
  have split: "[1..<Suc (Suc m)] = [1..<Suc m] @ [Suc m]" by simp
  have "addSortedAttributes A (Suc m) (table ?g n) =
        Inr (js_put (Suc m) ((?g (Suc m))\<lparr>sortedAttributes := Some (replicate A [])\<rparr>) (table ?g n))"
    using Suc.prems by (simp add: addSortedAttributes_def js_get_table)
  also have "js_put (Suc m) ((?g (Suc m))\<lparr>sortedAttributes := Some (replicate A [])\<rparr>) (table ?g n) =
        table (?g(Suc m := (?g (Suc m))\<lparr>sortedAttributes := Some (replicate A [])\<rparr>)) n"
    using Suc.prems by (intro js_put_table) simp_all
  also have "\<dots> = table (\<lambda>k. if k \<le> Suc m then (f k)\<lparr>sortedAttributes := Some (replicate A [])\<rparr> else f k) n"
    by (rule table_cong) auto
  finally show ?case
    by (simp only: split foldE_append IH sum.case foldE_single)
qed

lemma pushAttribute_table:
  assumes "1 \<le> c" "c \<le> K" "sortedAttributes (f c) = Some sa" "length sa = A"
  shows "j' \<le> A \<Longrightarrow>
     foldE (pushAttribute (Some c) row) [0..<j'] (table f K) =
       Inr (table (f(c := (f c)\<lparr>sortedAttributes :=
              Some (map (\<lambda>j. sa ! j @ (if j < j' then [js_index row j] else [])) [0..<A])\<rparr>)) K)"
proof (induction j')
  case 0
  have "map (\<lambda>j. sa ! j @ (if j < 0 then [js_index row j] else [])) [0..<A] = sa"
    using assms(4) by (intro nth_equalityI) auto
  then have "(f c)\<lparr>sortedAttributes :=
              Some (map (\<lambda>j. sa ! j @ (if j < 0 then [js_index row j] else [])) [0..<A])\<rparr> = f c"
    using assms(3) by (cases "f c") simp
  then show ?case by simp
next
  case (Suc j')
  let ?sa = "\<lambda>n. map (\<lambda>j. sa ! j @ (if j < n then [js_index row j] else [])) [0..<A]"
  let ?obj = "\<lambda>n. (f c)\<lparr>sortedAttributes := Some (?sa n)\<rparr>"
  from Suc.prems have j': "j' < A" and le: "j' \<le> A" by simp_all
  note IH = Suc.IH [OF le]
  have upd: "(?sa j')[j' := ?sa j' ! j' @ [js_index row j']] = ?sa (Suc j')"
    using j' by (intro nth_equalityI) (auto simp: nth_list_update less_Suc_eq)
  have "pushAttribute (Some c) row j' (table (f(c := ?obj j')) K) =
        Inr (js_put c ((?obj j')\<lparr>sortedAttributes := Some ((?sa j')[j' := ?sa j' ! j' @ [js_index row j']])\<rparr>)
              (table (f(c := ?obj j')) K))"
    using assms(1,2) j' by (simp add: pushAttribute_def js_get_table)
  also have "(?obj j')\<lparr>sortedAttributes := Some ((?sa j')[j' := ?sa j' ! j' @ [js_index row j']])\<rparr> =
             ?obj (Suc j')"
    by (simp only: upd) simp
  also have "js_put c (?obj (Suc j')) (table (f(c := ?obj j')) K) =
             table ((f(c := ?obj j'))(c := ?obj (Suc j'))) K"
    using assms(1,2) by (rule js_put_table)
  also have "(f(c := ?obj j'))(c := ?obj (Suc j')) = f(c := ?obj (Suc j'))" by simp
  finally have step: "pushAttribute (Some c) row j' (table (f(c := ?obj j')) K) =
      Inr (table (f(c := ?obj (Suc j'))) K)" .
  have split: "[0..<Suc j'] = [0..<j'] @ [j']" by simp
  show ?case by (simp only: split foldE_append IH sum.case foldE_single step)
qed

lemma rowsOf_Suc:
  "rowsOf X y k (Suc m) j =
     (if y ! m = k then rowsOf X y k m j @ [js_index (X ! m) j] else rowsOf X y k m j)"
  by (simp add: rowsOf_def)

lemma pushRow_table:
  assumes "m < length y" "1 \<le> y ! m" "y ! m \<le> K"
  shows "pushRow X y A m (table (partitioned X y A m) K) =
           Inr (table (partitioned X y A (Suc m)) K)"
proof -
  let ?c = "y ! m"
  let ?f = "partitioned X y A m"
  let ?sa = "map (rowsOf X y ?c m) [0..<A]"
  have sa: "sortedAttributes (?f ?c) = Some ?sa" by (simp add: partitioned_def)
  have len: "length ?sa = A" by simp
  have "pushRow X y A m (table ?f K) =
        foldE (pushAttribute (Some ?c) (X ! m)) [0..<A] (table ?f K)"
    using assms(1) by (simp add: pushRow_def js_index_def)
  also have "\<dots> = Inr (table (?f(?c := (?f ?c)\<lparr>sortedAttributes :=
        Some (map (\<lambda>j. ?sa ! j @ (if j < A then [js_index (X ! m) j] else [])) [0..<A])\<rparr>)) K)"
    using assms(2,3) sa len by (rule pushAttribute_table) simp
  also have "table (?f(?c := (?f ?c)\<lparr>sortedAttributes :=
        Some (map (\<lambda>j. ?sa ! j @ (if j < A then [js_index (X ! m) j] else [])) [0..<A])\<rparr>)) K =
      table (partitioned X y A (Suc m)) K"
  proof (rule table_cong)
    fix k
    have "map (\<lambda>j. ?sa ! j @ (if j < A then [js_index (X ! m) j] else [])) [0..<A] =
          map (rowsOf X y ?c (Suc m)) [0..<A]"
      by (intro nth_equalityI) (simp_all add: rowsOf_Suc)
    moreover have "k \<noteq> ?c \<Longrightarrow> map (rowsOf X y k (Suc m)) [0..<A] = map (rowsOf X y k m) [0..<A]"
      by (intro map_cong) (auto simp: rowsOf_Suc)
    ultimately show "(?f(?c := (?f ?c)\<lparr>sortedAttributes :=
        Some (map (\<lambda>j. ?sa ! j @ (if j < A then [js_index (X ! m) j] else [])) [0..<A])\<rparr>)) k =
      partitioned X y A (Suc m) k"
      by (simp add: partitioned_def)
  qed
  finally show ?thesis .
qed

lemma pushRows_table:
  assumes "\<forall>l\<in>set y. 1 \<le> l \<and> l \<le> K"
  shows "m \<le> length y \<Longrightarrow>
     foldE (pushRow X y A) [0..<m] (table (partitioned X y A 0) K) =
       Inr (table (partitioned X y A m) K)"
proof (induction m)
  case 0
  then show ?case by simp
next
  case (Suc m)
  from Suc.prems have m: "m < length y" and le: "m \<le> length y" by simp_all
  note IH = Suc.IH [OF le]
  from m assms have "1 \<le> y ! m" "y ! m \<le> K" by simp_all
  with m have step: "pushRow X y A m (table (partitioned X y A m) K) =
      Inr (table (partitioned X y A (Suc m)) K)"
    by (rule pushRow_table)
  have split: "[0..<Suc m] = [0..<m] @ [m]" by simp
  show ?case by (simp only: split foldE_append IH sum.case foldE_single step)
qed

lemma partitioned_0:
  "table (\<lambda>k. if k \<le> K then emptyObject\<lparr>sortedAttributes := Some (replicate A [])\<rparr> else emptyObject) K =
     table (partitioned X y A 0) K"
proof (rule table_cong)
  fix k assume "1 \<le> k" "k \<le> K"
  have "map (rowsOf X y k 0) [0..<A] = map (\<lambda>j. []) [0..<A]"
    by (intro map_cong) (simp_all add: rowsOf_def)
  also have "\<dots> = replicate A []" by (simp add: replicate_map_const)
  finally show "(if k \<le> K then emptyObject\<lparr>sortedAttributes := Some (replicate A [])\<rparr> else emptyObject) =
     partitioned X y A 0 k"
    using \<open>k \<le> K\<close> by (simp add: partitioned_def emptyObject_def)
qed

lemma formatData_table:
  assumes "X \<noteq> []" "length X = length y" "firstAppearanceOrder y"
  shows "addCategories y 0 [] = (card (set y), table (\<lambda>k. emptyObject) (card (set y)))"
    and "set y = {1..card (set y)}"
    and "formatData X y =
           Inr (table (partitioned X y (length (hd X)) (length X)) (card (set y)))"
proof -
  have "set [] = {1..0::nat}" by simp
  moreover have "firstAppearanceOrder ([] @ y)" using assms(3) by simp
  ultimately obtain K where K:
    "addCategories y 0 (table (\<lambda>k. emptyObject) 0) = (K, table (\<lambda>k. emptyObject) K)"
    "set ([] @ y) = {1..K}"
    using addCategories_ordered [of "[]" 0 y] by blast
  from K(2) have sy: "set y = {1..K}" by simp
  then have card: "card (set y) = K" by simp
  from K(1) have ac: "addCategories y 0 [] = (K, table (\<lambda>k. emptyObject) K)"
    by (simp add: table_0)
  show "addCategories y 0 [] = (card (set y), table (\<lambda>k. emptyObject) (card (set y)))"
    by (simp only: card ac)
  show "set y = {1..card (set y)}" by (simp only: card) (rule sy)
  from assms(1) obtain first rest where X: "X = first # rest" by (cases X) auto
  let ?A = "length first"
  have "foldE (addSortedAttributes ?A) [1..<Suc K] (table (\<lambda>k. emptyObject) K) =
      Inr (table (\<lambda>k. if k \<le> K then emptyObject\<lparr>sortedAttributes := Some (replicate ?A [])\<rparr>
                         else emptyObject) K)"
    by (rule addSortedAttributes_table) simp
  also have "table (\<lambda>k. if k \<le> K then emptyObject\<lparr>sortedAttributes := Some (replicate ?A [])\<rparr>
                         else emptyObject) K = table (partitioned X y ?A 0) K"
    by (rule partitioned_0)
  finally have l2: "foldE (addSortedAttributes ?A) [1..<Suc K] (table (\<lambda>k. emptyObject) K) =
      Inr (table (partitioned X y ?A 0) K)" .
  have labels: "\<forall>l\<in>set y. 1 \<le> l \<and> l \<le> K" using sy by simp
  have l3: "foldE (pushRow X y ?A) [0..<length X] (table (partitioned X y ?A 0) K) =
      Inr (table (partitioned X y ?A (length X)) K)"
    using labels by (rule pushRows_table) (simp add: assms(2))
  have "formatData X y = Inr (table (partitioned X y ?A (length X)) K)"
    unfolding formatData_def ac
    by (simp only: X list.case prod.case Suc_eq_plus1 [symmetric] l2 [unfolded X] sum.case
        l3 [unfolded X])
  then show "formatData X y =
           Inr (table (partitioned X y (length (hd X)) (length X)) (card (set y)))"
    by (simp add: X card)
qed

lemma meanEach_total:
  "\<forall>kc\<in>set d. sortedAttributes (snd kc) \<noteq> None \<Longrightarrow> \<exists>d'. meanEachAttributeCategory d = Inr d'"
proof (induction d)
  case Nil
  then show ?case by simp
next
  case (Cons kc d)
  obtain k c where kc: "kc = (k, c)" by (cases kc)
  from Cons.prems obtain sa where "sortedAttributes c = Some sa" by (auto simp: kc)
  moreover from Cons obtain d' where "meanEachAttributeCategory d = Inr d'" by auto
  ultimately show ?case by (simp add: kc)
qed

lemma standardDeviation_total:
  "\<forall>kc\<in>set d. sortedAttributes (snd kc) \<noteq> None \<and> mean (snd kc) \<noteq> None \<Longrightarrow>
     \<exists>d'. standardDeviation d = Inr d'"
proof (induction d)
  case Nil
  then show ?case by simp
next
  case (Cons kc d)
  obtain k c where kc: "kc = (k, c)" by (cases kc)
  from Cons.prems obtain sa ms where c: "sortedAttributes c = Some sa" "mean c = Some ms"
    by (auto simp: kc)
  have "mapE (attributeStDev (Some ms) sa) [0..<length sa] =
        Inr (map (\<lambda>i. stDevOf (ToNumber (js_index ms i)) (sa ! i)) [0..<length sa])"
    by (rule mapE_Inr) (rule attributeStDev_Some)
  moreover from Cons obtain d' where "standardDeviation d = Inr d'" by auto
  ultimately show ?case by (simp add: kc c)
qed

lemma withMean_keeps: "withMean c c' \<Longrightarrow>
    sortedAttributes c' = sortedAttributes c \<and> sortedAttributes c \<noteq> None \<and> mean c' \<noteq> None"
  by (auto simp: withMean_def split: option.splits)

lemma withStDev_keeps: "withStDev c c' \<Longrightarrow> sortedAttributes c' = sortedAttributes c"
  by (auto simp: withStDev_def split: option.splits sum.splits)

lemma fit_after_formatData:
  assumes "formatData X y = Inr d0" "\<forall>kc\<in>set d0. sortedAttributes (snd kc) \<noteq> None"
  shows "\<exists>d. fit X y = Inr d \<and> length d = length d0 \<and>
           (\<forall>i<length d0. fst (d ! i) = fst (d0 ! i) \<and>
                           sortedAttributes (snd (d ! i)) = sortedAttributes (snd (d0 ! i)))"
proof -
  from meanEach_total [OF assms(2)] obtain d1 where m: "meanEachAttributeCategory d0 = Inr d1"
    by blast
  note m2 = meanEach_all2 [OF m]
  have len1: "length d1 = length d0" using m2 by (simp add: list_all2_lengthD)
  have d1: "fst (d1 ! i) = fst (d0 ! i) \<and> withMean (snd (d0 ! i)) (snd (d1 ! i))"
    if "i < length d0" for i
    using list_all2_nthD [OF m2 that] by simp
  have "\<forall>kc\<in>set d1. sortedAttributes (snd kc) \<noteq> None \<and> mean (snd kc) \<noteq> None"
  proof
    fix kc assume "kc \<in> set d1"
    then obtain i where i: "i < length d1" "kc = d1 ! i" by (auto simp: in_set_conv_nth)
    with len1 d1 [of i] have "withMean (snd (d0 ! i)) (snd kc)" by simp
    from withMean_keeps [OF this]
    show "sortedAttributes (snd kc) \<noteq> None \<and> mean (snd kc) \<noteq> None" by simp
  qed
  from standardDeviation_total [OF this] obtain d where s: "standardDeviation d1 = Inr d"
    by blast
  note s2 = standardDeviation_all2 [OF s]
  have len: "length d = length d0" using s2 len1 by (simp add: list_all2_lengthD)
  have "fst (d ! i) = fst (d0 ! i) \<and>
        sortedAttributes (snd (d ! i)) = sortedAttributes (snd (d0 ! i))"
    if i: "i < length d0" for i
  proof -
    from i len1 have i1: "i < length d1" by simp
    from list_all2_nthD [OF s2 i1]
    have "fst (d ! i) = fst (d1 ! i)" "withStDev (snd (d1 ! i)) (snd (d ! i))" by simp_all
    with d1 [OF i] withMean_keeps [of "snd (d0 ! i)" "snd (d1 ! i)"]
      withStDev_keeps [of "snd (d1 ! i)" "snd (d ! i)"]
    show ?thesis by simp
  qed
  moreover have "fit X y = Inr d" by (simp add: fit_def assms(1) m s)
  ultimately show ?thesis using len by blast
qed

lemma js_get_by_index:
  assumes "length d = K" "\<forall>i<K. fst (d ! i) = Suc i" "1 \<le> c" "c \<le> K"
  shows "js_get d c = Some (snd (d ! (c - 1)))"
proof -
  have "d = table (\<lambda>k. snd (d ! (k - 1))) K"
    using assms(1,2)
    by (intro nth_equalityI) (auto simp: length_table nth_table prod_eq_iff)
  then have "js_get d c = js_get (table (\<lambda>k. snd (d ! (k - 1))) K) c" by simp
  then show ?thesis using assms(3,4) by (simp only: js_get_table) simp
qed

lemma rowsOf_rectangular:
  assumes "\<forall>row\<in>set X. length row = A" "j < A"
  shows "rowsOf X y c (length X) j = classValues X y c j"
  unfolding rowsOf_def classValues_def
  using assms by (intro map_cong) (simp_all add: js_index_def)

lemma firstAppearanceOrder_example: "firstAppearanceOrder [1, 1, 2, 2]"
  unfolding firstAppearanceOrder_def
proof (intro ballI)
  fix i assume "i \<in> {0..<length [1, 1, 2, 2::nat]}"
  then consider "i = 0" | "i = 1" | "i = 2" | "i = 3" by fastforce
  then show "1 \<le> [1, 1, 2, 2::nat] ! i \<and>
      (\<forall>c\<in>{1..<[1, 1, 2, 2::nat] ! i}. c \<in> set (take i [1, 1, 2, 2::nat]))"
    by cases (auto simp: numeral_2_eq_2 numeral_3_eq_3)
qed

subsection \<open>Inputs of mismatched shapes\<close>

lemma foldE_cong:
  "(\<And>x s. x \<in> set xs \<Longrightarrow> f x s = g x s) \<Longrightarrow> foldE f xs s = foldE g xs s"
  by (induction xs arbitrary: s) (auto split: sum.splits)

lemma js_index_take: "j < A \<Longrightarrow> js_index (take A row) j = js_index row j"
  by (simp add: js_index_def)

lemma pushAttribute_take:
  "j < A \<Longrightarrow> pushAttribute category (take A row) j d = pushAttribute category row j d"
  by (simp add: pushAttribute_def js_index_take split: option.splits)

lemma pushRow_take:
  assumes "i < length X"
  shows "pushRow (map (take A) X) y A i d = pushRow X y A i d"
  unfolding pushRow_def using assms
  by (intro foldE_cong) (simp add: pushAttribute_take)

lemma formatData_take:
  "formatData (map (take (length (hd X))) X) y = formatData X y"
proof (cases X)
  case Nil
  then show ?thesis by simp
next
  case (Cons first rest)
  let ?A = "length first"
  let ?X' = "map (take ?A) X"
  have X': "?X' = first # map (take ?A) rest" by (simp add: Cons)
  have loop: "foldE (pushRow ?X' y ?A) [0..<length ?X'] d = foldE (pushRow X y ?A) [0..<length X] d"
    for d
    by (simp only: length_map) (intro foldE_cong, simp add: pushRow_take)
  have "formatData ?X' y =
      (case addCategories y 0 [] of
        (numOfUniqueLabels, d1) \<Rightarrow>
          (case foldE (addSortedAttributes ?A) [1..<numOfUniqueLabels + 1] d1 of
             Inl e \<Rightarrow> Inl e
           | Inr d2 \<Rightarrow> foldE (pushRow ?X' y ?A) [0..<length ?X'] d2))"
    unfolding formatData_def by (simp only: X' list.case)
  also have "\<dots> = formatData X y"
    unfolding formatData_def by (simp only: loop) (simp only: Cons list.case)
  finally show ?thesis by (simp add: Cons)
qed

lemma fit_take: "fit (map (take (length (hd X))) X) y = fit X y"
  by (simp only: fit_def formatData_take)

lemma result_cases: "(r :: error + 'a) = Inl TypeError \<or> (\<exists>v. r = Inr v)"
proof (cases r)
  case (Inl e)
  then show ?thesis by (cases e) simp
next
  case (Inr v)
  then show ?thesis by simp
qed

lemma pushRow_no_label:
  assumes "length y \<le> i" "0 < A"
  shows "pushRow X y A i d = Inl TypeError"
proof -
  from assms(2) have "[0..<A] = 0 # [1..<A]" by (simp add: upt_conv_Cons)
  moreover have "js_index y i = None" using assms(1) by (simp add: js_index_def)
  ultimately show ?thesis by (simp add: pushRow_def pushAttribute_def)
qed

lemma formatData_more_rows:
  assumes "length y < length X" "hd X \<noteq> []"
  shows "formatData X y = Inl TypeError"
proof (rule ccontr)
  assume "formatData X y \<noteq> Inl TypeError"
  with result_cases [of "formatData X y"] obtain d where f: "formatData X y = Inr d" by blast
  obtain n d1 where ac: "addCategories y 0 [] = (n, d1)" by (cases "addCategories y 0 []")
  from f ac obtain first rest d2 where X: "X = first # rest"
    and l3: "foldE (pushRow X y (length first)) [0..<length X] d2 = Inr d"
    by (auto simp: formatData_def split: list.splits sum.splits)
  from assms(2) X have A: "0 < length first" by simp
  from assms(1) have "length y \<in> set [0..<length X]" by simp
  with l3 have "\<exists>t t'. True \<and> pushRow X y (length first) (length y) t = Inr t'"
    by (rule foldE_steps_defined) simp_all
  then show False using pushRow_no_label [OF order_refl A] by simp
qed

lemma fit_more_rows:
  "length y < length X \<Longrightarrow> hd X \<noteq> [] \<Longrightarrow> fit X y = Inl TypeError"
  by (simp add: fit_def formatData_more_rows)

lemma accuracyScore_positions:
  "accuracyScore p y =
     js_div (Fin (real (length (filter (\<lambda>i. i < length y \<and> y ! i = p ! i + 1) [0..<length p]))))
            (Fin (real (length p)))"
proof -
  have eq: "filter (classifiedCorrectly p y) [0..<length p] =
        filter (\<lambda>i. i < length y \<and> y ! i = p ! i + 1) [0..<length p]"
    by (intro filter_cong) (auto simp: classifiedCorrectly_def js_index_def)
  show ?thesis unfolding accuracyScore_def Let_def countCorrectly_filter eq ..
qed

lemma fit_constantClass: "fit [[Fin 1], [Fin 1]] [1, 1] = Inr constantClass"
  by (simp add: fit_eval constantClass_def)

lemma predict_constantClass: "predict constantClass [[Fin 1], [Fin 5]] = Inr [0, 0]"
  by (simp add: predict_eval constantClass_def)

lemma normalized_constantClass:
  "normalizedProbabilitiesOf constantClass [Fin 5] = Inr [NaN]"
  by (simp add: predict_eval constantClass_def)

lemma normalized_twoClasses:
  "normalizedProbabilitiesOf twoClasses [Fin 1] =
     Inr [Fin (1 / sqrt (2 * pi) / (1 / sqrt (2 * pi) + exp (- 8) / sqrt (2 * pi))),
          Fin (exp (- 8) / sqrt (2 * pi) / (1 / sqrt (2 * pi) + exp (- 8) / sqrt (2 * pi)))]"
proof -
  have s: "1 / sqrt (2 * pi) + exp (- 8) / sqrt (2 * pi) \<noteq> 0"
    using add_pos_pos [of "1 / sqrt (2 * pi)" "exp (- 8) / sqrt (2 * pi)"] by simp
  show ?thesis
    unfolding normalizedProbabilitiesOf_def expSumLogPDFOf_twoClasses
    using s by (simp add: normalizeProbabilities_def)
qed

lemma normalized_twoClasses_order:
  "exp (- 8) / sqrt (2 * pi) / (1 / sqrt (2 * pi) + exp (- 8) / sqrt (2 * pi))
     < 1 / sqrt (2 * pi) / (1 / sqrt (2 * pi) + exp (- 8) / sqrt (2 * pi))"
proof -
  have "exp (- 8) / sqrt (2 * pi) < 1 / sqrt (2 * pi)"
    by (intro divide_strict_right_mono) simp_all
  moreover have "0 < 1 / sqrt (2 * pi) + exp (- 8) / sqrt (2 * pi)"
    by (intro add_pos_pos divide_pos_pos) simp_all
  ultimately show ?thesis by (rule divide_strict_right_mono)
qed

lemma findHighest_twoClasses:
  "findHighestProbabilityIndex
     [Fin (1 / sqrt (2 * pi) / (1 / sqrt (2 * pi) + exp (- 8) / sqrt (2 * pi))),
      Fin (exp (- 8) / sqrt (2 * pi) / (1 / sqrt (2 * pi) + exp (- 8) / sqrt (2 * pi)))] = 0"
  using normalized_twoClasses_order
  by (simp add: findHighestProbabilityIndex_def js_index_def upt_conv_Cons)

lemma firstMaximum_example: "firstMaximum (map Fin [1, 3, 3]) 1"
  by (auto simp: firstMaximum_def nth_Cons' less_Suc_eq numeral_3_eq_3)


lemma fit_mixedClasses: "fit [[Fin 1], [Fin 1], [Fin 4], [Fin 6]] [1, 1, 2, 2] = Inr mixedClasses"
  by (simp add: fit_eval mixedClasses_def)

lemma normalized_mixedClasses:
  "normalizedProbabilitiesOf mixedClasses [Fin 5] = Inr [NaN, NaN]"
  by (simp add: predict_eval mixedClasses_def)

lemma predictRow_no_attribute: "predictRow d [] = Inl TypeError"
  by (simp add: predict_eval)

lemma predictRow_no_class: "row \<noteq> [] \<Longrightarrow> predictRow [] row = Inr 0"
  by (simp add: predictRow_Inr hasStatistics_def normalizeProbabilities_def
      findHighestProbabilityIndex_def)
section \<open>Rounding to the nearest double\<close>

lemma tiesToEven_near: "\<bar>of_int (tiesToEven q) - q\<bar> \<le> 1 / 2"
  unfolding tiesToEven_def Let_def by (auto; linarith)

lemma tiesToEven_of_int: "tiesToEven (of_int k) = k"
  by (simp add: tiesToEven_def)

lemma tiesToEven_nonneg: "0 \<le> q \<Longrightarrow> 0 \<le> tiesToEven q"
  unfolding tiesToEven_def Let_def by auto

lemma tiesToEven_mono_floor: "\<lfloor>q\<rfloor> \<le> tiesToEven q"
  unfolding tiesToEven_def Let_def by auto

lemma ulp_pos: "0 < ulp x"
  by (simp add: ulp_def)

lemma floor_log2_le: "x \<noteq> 0 \<Longrightarrow> 2 powr of_int \<lfloor>log 2 \<bar>x\<bar>\<rfloor> \<le> \<bar>x\<bar>"
proof -
  assume x: "x \<noteq> 0"
  have "2 powr of_int \<lfloor>log 2 \<bar>x\<bar>\<rfloor> \<le> 2 powr (log 2 \<bar>x\<bar>)"
    by (intro powr_mono) simp_all
  also have "\<dots> = \<bar>x\<bar>" using x by simp
  finally show ?thesis .
qed

lemma floor_log2_gt: "x \<noteq> 0 \<Longrightarrow> \<bar>x\<bar> < 2 powr (of_int \<lfloor>log 2 \<bar>x\<bar>\<rfloor> + 1)"
proof -
  assume x: "x \<noteq> 0"
  have "\<bar>x\<bar> = 2 powr (log 2 \<bar>x\<bar>)" using x by simp
  also have "\<dots> < 2 powr (of_int \<lfloor>log 2 \<bar>x\<bar>\<rfloor> + 1)"
    by (intro powr_less_mono) simp_all
  finally show ?thesis .
qed

lemma floor_log2_eq:
  assumes "2 powr of_int e \<le> \<bar>x\<bar>" "\<bar>x\<bar> < 2 powr (of_int e + 1)"
  shows "\<lfloor>log 2 \<bar>x\<bar>\<rfloor> = e"
proof -
  have pos: "0 < \<bar>x\<bar>" using assms(1) powr_gt_zero [of 2 "of_int e"] by linarith
  have "of_int e \<le> log 2 \<bar>x\<bar>" using assms(1) pos by (simp add: le_log_iff)
  moreover have "log 2 \<bar>x\<bar> < of_int e + 1" using assms(2) pos by (simp add: log_less_iff)
  ultimately show ?thesis by linarith
qed


lemma exponentOf_ge: "- 1022 \<le> exponentOf x"
  by (simp add: exponentOf_def)

lemma exponentOf_normal:
  assumes "2 powr (- 1022) \<le> \<bar>x\<bar>"
  shows "exponentOf x = \<lfloor>log 2 \<bar>x\<bar>\<rfloor>"
proof -
  have pos: "0 < \<bar>x\<bar>" using assms powr_gt_zero [of 2 "- 1022"] by linarith
  have "- 1022 \<le> log 2 \<bar>x\<bar>" using assms pos by (simp add: le_log_iff)
  then have "- 1022 \<le> \<lfloor>log 2 \<bar>x\<bar>\<rfloor>" by (simp add: le_floor_iff)
  then show ?thesis by (simp add: exponentOf_def)
qed

lemma exponentOf_subnormal:
  assumes "\<bar>x\<bar> < 2 powr (- 1022)" "x \<noteq> 0"
  shows "exponentOf x = - 1022"
proof -
  have "log 2 \<bar>x\<bar> < - 1022" using assms by (simp add: log_less_iff)
  then have "\<lfloor>log 2 \<bar>x\<bar>\<rfloor> < - 1022" by (simp add: floor_less_iff)
  then show ?thesis by (simp add: exponentOf_def)
qed

lemma ulp_normal:
  assumes "2 powr (- 1022) \<le> \<bar>x\<bar>"
  shows "ulp x \<le> 2 powr (- 52) * \<bar>x\<bar>"
proof -
  have x: "x \<noteq> 0" using assms powr_gt_zero [of 2 "- 1022"] by auto
  have "ulp x = 2 powr (of_int \<lfloor>log 2 \<bar>x\<bar>\<rfloor> + (- 52))"
    by (simp add: ulp_def exponentOf_normal [OF assms])
  also have "\<dots> = 2 powr of_int \<lfloor>log 2 \<bar>x\<bar>\<rfloor> * 2 powr (- 52)" by (rule powr_add)
  also have "\<dots> \<le> \<bar>x\<bar> * 2 powr (- 52)"
    using floor_log2_le [OF x] by (intro mult_right_mono) simp_all
  finally show ?thesis by (simp add: mult.commute)
qed

lemma ulp_subnormal:
  assumes "\<bar>x\<bar> < 2 powr (- 1022)" "x \<noteq> 0"
  shows "ulp x = 2 powr (- 1074)"
  by (simp add: ulp_def exponentOf_subnormal [OF assms])

lemma dbl_FinD:
  assumes "dbl x = Fin r"
  shows "r = ulp x * of_int (tiesToEven (x / ulp x))"
  using assms by (auto simp: dbl_def Let_def tiesToEven_def split: if_splits)

lemma dbl_error:
  assumes "dbl x = Fin r"
  shows "\<bar>r - x\<bar> \<le> ulp x / 2"
proof -
  let ?u = "ulp x"
  let ?q = "x / ?u"
  have u: "0 < ?u" by (rule ulp_pos)
  have r: "r = ?u * of_int (tiesToEven ?q)" using assms by (rule dbl_FinD)
  have "r - x = ?u * (of_int (tiesToEven ?q) - ?q)" using u by (simp add: r algebra_simps)
  then have "\<bar>r - x\<bar> = ?u * \<bar>of_int (tiesToEven ?q) - ?q\<bar>" using u by (simp add: abs_mult)
  also have "\<dots> \<le> ?u * (1 / 2)" using u tiesToEven_near [of ?q] by (intro mult_left_mono) simp_all
  finally show ?thesis by simp
qed

lemma dbl_error_normal:
  assumes "dbl x = Fin r" "2 powr (- 1022) \<le> \<bar>x\<bar>"
  shows "\<bar>r - x\<bar> \<le> 2 powr (- 53) * \<bar>x\<bar>"
proof -
  have "\<bar>r - x\<bar> \<le> ulp x / 2" using assms(1) by (rule dbl_error)
  also have "\<dots> \<le> (2 powr (- 52) * \<bar>x\<bar>) / 2" using ulp_normal [OF assms(2)] by simp
  also have "\<dots> = 2 powr (- 53) * \<bar>x\<bar>"
  proof -
    have "(2::real) powr (- 52) = 2 powr (- 53 + 1)" by simp
    also have "\<dots> = 2 powr (- 53) * 2" by (subst powr_add) simp
    finally show ?thesis by simp
  qed
  finally show ?thesis .
qed

lemma dbl_error_subnormal:
  assumes "dbl x = Fin r" "\<bar>x\<bar> < 2 powr (- 1022)"
  shows "\<bar>r - x\<bar> \<le> 2 powr (- 1075)"
proof (cases "x = 0")
  case True
  with assms(1) show ?thesis by (simp add: dbl_def)
next
  case False
  have "\<bar>r - x\<bar> \<le> ulp x / 2" using assms(1) by (rule dbl_error)
  also have "\<dots> = 2 powr (- 1074) / 2" by (simp add: ulp_subnormal [OF assms(2) False])
  also have "\<dots> = 2 powr (- 1075)"
  proof -
    have "(2::real) powr (- 1074) = 2 powr (- 1075 + 1)" by simp
    also have "\<dots> = 2 powr (- 1075) * 2" by (subst powr_add) simp
    finally show ?thesis by simp
  qed
  finally show ?thesis .
qed

lemma dbl_nonneg:
  assumes "dbl x = Fin r" "0 \<le> x"
  shows "0 \<le> r"
proof -
  have "0 \<le> x / ulp x" using assms(2) ulp_pos [of x] by simp
  then have "0 \<le> tiesToEven (x / ulp x)" by (rule tiesToEven_nonneg)
  then show ?thesis using dbl_FinD [OF assms(1)] ulp_pos [of x] by simp
qed

lemma dbl_nonneg_cases: "0 \<le> x \<Longrightarrow> dbl x = PInf \<or> (\<exists>r. dbl x = Fin r \<and> 0 \<le> r)"
proof -
  assume x: "0 \<le> x"
  show ?thesis
  proof (cases "dbl x")
    case (Fin r)
    with dbl_nonneg [OF Fin x] show ?thesis by simp
  next
    case PInf then show ?thesis by simp
  next
    case NInf
    with x show ?thesis by (auto simp: dbl_def Let_def split: if_splits)
  next
    case NaN
    then show ?thesis by (auto simp: dbl_def Let_def split: if_splits)
  qed
qed


lemma round_error: "\<bar>ulp x * of_int (tiesToEven (x / ulp x)) - x\<bar> \<le> ulp x / 2"
proof -
  let ?u = "ulp x"
  let ?q = "x / ?u"
  have u: "0 < ?u" by (rule ulp_pos)
  have "?u * of_int (tiesToEven ?q) - x = ?u * (of_int (tiesToEven ?q) - ?q)"
    using u by (simp add: algebra_simps)
  then have "\<bar>?u * of_int (tiesToEven ?q) - x\<bar> = ?u * \<bar>of_int (tiesToEven ?q) - ?q\<bar>"
    using u by (simp add: abs_mult)
  also have "\<dots> \<le> ?u * (1 / 2)"
    using u tiesToEven_near [of ?q] by (intro mult_left_mono) simp_all
  finally show ?thesis by simp
qed

lemma two_powr_int: "0 \<le> n \<Longrightarrow> (2::real) powr of_int n = of_int (2 ^ nat n)"
proof -
  assume n: "0 \<le> n"
  then have "(2::real) powr of_int n = 2 powr real (nat n)" by simp
  also have "\<dots> = 2 ^ nat n" by (rule powr_realpow) simp
  finally show ?thesis by simp
qed

lemma two_powr_diff: "(2::real) powr a / 2 powr b = 2 powr (a - b)"
  by (simp add: powr_diff)

lemma dbl_exactI_range:
  assumes x: "x = of_int m * 2 powr of_int e"
    and m: "\<bar>m\<bar> < 2 ^ 53" and e: "- 1074 \<le> e" and r: "\<bar>x\<bar> < 2 ^ 1024"
  shows "dbl x = Fin x"
proof (cases "m = 0")
  case True
  then show ?thesis by (simp add: x dbl_def)
next
  case False
  have p: "0 < (2::real) powr of_int e" by simp
  have x0: "x \<noteq> 0" using False p by (simp add: x)
  have ax: "\<bar>x\<bar> = of_int \<bar>m\<bar> * 2 powr of_int e" by (simp add: x abs_mult)
  have lt: "\<bar>x\<bar> < 2 powr (of_int (e + 53))"
  proof -
    have "of_int \<bar>m\<bar> < (2::real) ^ 53" using m by (metis of_int_less_iff of_int_numeral of_int_power)
    then have "\<bar>x\<bar> < 2 ^ 53 * 2 powr of_int e" unfolding ax using p by (intro mult_strict_right_mono)
    also have "\<dots> = 2 powr of_int e * 2 powr 53" by simp
    also have "\<dots> = 2 powr (of_int e + 53)" by (rule powr_add [symmetric])
    finally show ?thesis by simp
  qed
  have "log 2 \<bar>x\<bar> < of_int (e + 53)" using lt x0 by (simp add: log_less_iff)
  then have "\<lfloor>log 2 \<bar>x\<bar>\<rfloor> < e + 53" by (simp add: floor_less_iff)
  then have ex: "exponentOf x - 52 \<le> e" using e by (simp add: exponentOf_def)
  define n where "n = e - (exponentOf x - 52)"
  have n: "0 \<le> n" using ex by (simp add: n_def)
  have "x / ulp x = of_int m * (2 powr of_int e / 2 powr of_int (exponentOf x - 52))"
    by (simp add: x ulp_def)
  also have "2 powr of_int e / 2 powr of_int (exponentOf x - 52) = (2::real) powr of_int n"
    unfolding two_powr_diff n_def by simp
  also have "\<dots> = of_int (2 ^ nat n)" using n by (rule two_powr_int)
  finally have q: "x / ulp x = of_int (m * 2 ^ nat n)" by simp
  have t: "tiesToEven (x / ulp x) = m * 2 ^ nat n" unfolding q by (rule tiesToEven_of_int)
  have rx: "ulp x * of_int (tiesToEven (x / ulp x)) = x"
    unfolding t q [symmetric] using ulp_pos [of x] by simp
  have "\<not> 2 ^ 1024 \<le> \<bar>x\<bar>" using r by simp
  then show ?thesis using x0 by (simp add: dbl_def Let_def rx)
qed

lemma dbl_exactI:
  assumes x: "x = of_int m * 2 powr of_int e"
    and m: "\<bar>m\<bar> < 2 ^ 53" and e: "- 1074 \<le> e" "e \<le> 971"
  shows "dbl x = Fin x"
proof -
  have p: "0 < (2::real) powr of_int e" by simp
  have "of_int \<bar>m\<bar> < (2::real) ^ 53" using m by (metis of_int_less_iff of_int_numeral of_int_power)
  moreover have "(2::real) powr of_int e \<le> 2 powr 971" using e(2) by (intro powr_mono) simp_all
  moreover have "\<bar>x\<bar> = of_int \<bar>m\<bar> * 2 powr of_int e" by (simp add: x abs_mult)
  ultimately have "\<bar>x\<bar> < 2 ^ 53 * 2 powr 971"
    using p by (simp only: mult_less_le_imp_less abs_ge_zero of_int_abs)
  also have "\<dots> = 2 ^ 1024" by simp
  finally show ?thesis using x m e(1) by (intro dbl_exactI_range)
qed

lemma dbl_of_int: "\<bar>n\<bar> < 2 ^ 53 \<Longrightarrow> dbl (of_int n) = Fin (of_int n)"
  using dbl_exactI [of "of_int n" n 0] by simp

lemma dbl_grid:
  assumes "dbl x = Fin r"
  shows "onGrid r"
proof -
  define n where "n = exponentOf x - 52 + 1074"
  have n: "0 \<le> n" using exponentOf_ge [of x] by (simp add: n_def)
  have "ulp x = 2 powr (of_int n + (- 1074))" by (simp add: ulp_def n_def)
  also have "\<dots> = 2 powr of_int n * 2 powr (- 1074)" by (rule powr_add)
  also have "2 powr of_int n = (of_int (2 ^ nat n) :: real)" using n by (rule two_powr_int)
  finally have "r = of_int (tiesToEven (x / ulp x) * 2 ^ nat n) * 2 powr (- 1074)"
    using dbl_FinD [OF assms] by simp
  then show ?thesis unfolding onGrid_def by blast
qed

lemma onGrid_add: "onGrid a \<Longrightarrow> onGrid b \<Longrightarrow> onGrid (a + b)"
  unfolding onGrid_def
proof -
  assume "\<exists>k::int. a = of_int k * 2 powr (- 1074)" "\<exists>k::int. b = of_int k * 2 powr (- 1074)"
  then obtain k l :: int where "a = of_int k * 2 powr (- 1074)" "b = of_int l * 2 powr (- 1074)"
    by blast
  then have "a + b = of_int (k + l) * 2 powr (- 1074)" by (simp add: algebra_simps)
  then show "\<exists>k::int. a + b = of_int k * 2 powr (- 1074)" by blast
qed

lemma onGrid_0: "onGrid 0"
  unfolding onGrid_def by (intro exI [of _ 0]) simp

lemma dbl_exact_subnormal:
  assumes "onGrid x" "\<bar>x\<bar> < 2 powr (- 1022)"
  shows "dbl x = Fin x"
proof -
  from assms(1) obtain k :: int where k: "x = of_int k * 2 powr (- 1074)"
    unfolding onGrid_def by blast
  have "of_int \<bar>k\<bar> * 2 powr (- 1074) < (2::real) powr (- 1022)"
    using assms(2) by (simp add: k abs_mult)
  then have "of_int \<bar>k\<bar> < (2::real) powr (- 1022) / 2 powr (- 1074)"
    by (simp add: pos_less_divide_eq)
  also have "\<dots> = 2 powr 52" unfolding two_powr_diff by simp
  also have "\<dots> = 2 ^ 52" by (simp add: powr_numeral)
  finally have "of_int \<bar>k\<bar> < (2::real) ^ 52" .
  then have "\<bar>k\<bar> < 2 ^ 52" by (metis of_int_less_iff of_int_numeral of_int_power)
  then have "\<bar>k\<bar> < 2 ^ 53" by simp
  with dbl_exactI [of x k "- 1074"] k show ?thesis by simp
qed

lemma ulp_le:
  assumes "x \<noteq> 0"
  shows "ulp x \<le> max (2 powr (- 52) * \<bar>x\<bar>) (2 powr (- 1074))"
proof (cases "2 powr (- 1022) \<le> \<bar>x\<bar>")
  case True
  from ulp_normal [OF this] show ?thesis by simp
next
  case False
  then have "\<bar>x\<bar> < 2 powr (- 1022)" by simp
  from ulp_subnormal [OF this assms] show ?thesis by simp
qed

lemma dbl_finite:
  assumes "\<bar>x\<bar> \<le> 2 ^ 1023"
  shows "\<exists>r. dbl x = Fin r"
proof (cases "x = 0")
  case True
  then show ?thesis by (simp add: dbl_def)
next
  case False
  let ?r = "ulp x * of_int (tiesToEven (x / ulp x))"
  have u: "ulp x \<le> 2 powr (- 52) * 2 ^ 1023"
  proof -
    have "ulp x \<le> max (2 powr (- 52) * \<bar>x\<bar>) (2 powr (- 1074))" using False by (rule ulp_le)
    also have "\<dots> \<le> 2 powr (- 52) * 2 ^ 1023"
      using assms by (simp add: powr_minus)
    finally show ?thesis .
  qed
  have "\<bar>?r\<bar> \<le> \<bar>?r - x\<bar> + \<bar>x\<bar>" by simp
  also have "\<dots> \<le> ulp x / 2 + 2 ^ 1023" using round_error [of x] assms by simp
  also have "\<dots> \<le> (2 powr (- 52) * 2 ^ 1023) / 2 + 2 ^ 1023" using u by simp
  also have "\<dots> < 2 ^ 1024" by (simp add: powr_minus)
  finally have "\<not> 2 ^ 1024 \<le> \<bar>?r\<bar>" by simp
  then show ?thesis by (simp add: dbl_def Let_def)
qed


lemma dbl_eval:
  assumes "2 powr of_int e \<le> \<bar>x\<bar>" "\<bar>x\<bar> < 2 powr (of_int e + 1)" "- 1022 \<le> e" "e \<le> 1022"
  shows "dbl x = Fin (2 powr of_int (e - 52) * of_int (tiesToEven (x / 2 powr of_int (e - 52))))"
proof -
  have "\<lfloor>log 2 \<bar>x\<bar>\<rfloor> = e" using assms(1,2) by (rule floor_log2_eq)
  then have u: "ulp x = 2 powr of_int (e - 52)" using assms(3) by (simp add: ulp_def exponentOf_def)
  have "2 powr (of_int e + 1) \<le> (2::real) powr 1023" using assms(4) by (intro powr_mono) simp_all
  also have "\<dots> = 2 ^ 1023" by simp
  finally have "\<bar>x\<bar> \<le> 2 ^ 1023" using assms(2) by simp
  then obtain r where r: "dbl x = Fin r" using dbl_finite by blast
  from dbl_FinD [OF r] show ?thesis by (simp add: r u)
qed

lemma dbl_tiny:
  assumes "\<bar>x\<bar> < 2 powr (- 1075)"
  shows "dbl x = Fin 0"
proof (cases "x = 0")
  case True
  then show ?thesis by (simp add: dbl_def)
next
  case False
  have "(2::real) powr (- 1075) \<le> 2 powr (- 1022)" by (intro powr_mono) simp_all
  with assms have sub: "\<bar>x\<bar> < 2 powr (- 1022)" by (rule less_le_trans)
  have u: "ulp x = 2 powr (- 1074)" using sub False by (rule ulp_subnormal)
  have "\<bar>x / ulp x\<bar> = \<bar>x\<bar> / 2 powr (- 1074)" by (simp add: u)
  also have "\<dots> < 2 powr (- 1075) / 2 powr (- 1074)"
    using assms by (intro divide_strict_right_mono) simp_all
  also have "\<dots> = 1 / 2" unfolding two_powr_diff by (simp add: powr_minus)
  finally have q: "\<bar>x / ulp x\<bar> < 1 / 2" .
  have z: "tiesToEven q = 0" if "\<bar>q\<bar> < 1 / 2" for q :: real
  proof (cases "0 \<le> q")
    case True
    with that have "\<lfloor>q\<rfloor> = 0" by (intro floor_unique) simp_all
    with that True show ?thesis by (simp add: tiesToEven_def)
  next
    case False
    with that have "\<lfloor>q\<rfloor> = - 1" by (intro floor_unique) simp_all
    with that False show ?thesis by (simp add: tiesToEven_def)
  qed
  from z [OF q] have "tiesToEven (x / ulp x) = 0" .
  then show ?thesis using False by (simp add: dbl_def Let_def)
qed

lemma dbl_idem:
  assumes "dbl x = Fin r"
  shows "dbl r = Fin r"
proof (cases "x = 0")
  case True
  with assms show ?thesis by (simp add: dbl_def)
next
  case False
  define e where "e = exponentOf x"
  define m where "m = tiesToEven (x / ulp x)"
  have u: "ulp x = 2 powr of_int (e - 52)" by (simp add: ulp_def e_def)
  have r: "r = of_int m * 2 powr of_int (e - 52)"
    using dbl_FinD [OF assms] by (simp add: u m_def mult.commute)
  have fin: "\<bar>r\<bar> < 2 ^ 1024"
    using assms False dbl_FinD [OF assms] by (auto simp: dbl_def Let_def split: if_splits)
  have e: "- 1022 \<le> e" unfolding e_def by (rule exponentOf_ge)
  have lt: "\<bar>x\<bar> < 2 powr (of_int e + 1)"
  proof (cases "2 powr (- 1022) \<le> \<bar>x\<bar>")
    case True
    from floor_log2_gt [OF False] show ?thesis
      by (simp add: e_def exponentOf_normal [OF True])
  next
    case sub: False
    then have "\<bar>x\<bar> < 2 powr (- 1022)" by simp
    also have "\<dots> \<le> 2 powr (of_int e + 1)" using e by (intro powr_mono) simp_all
    finally show ?thesis .
  qed
  define q where "q = x / ulp x"
  have "\<bar>q\<bar> = \<bar>x\<bar> / 2 powr of_int (e - 52)" by (simp add: q_def u)
  also have "\<dots> < 2 powr (of_int e + 1) / 2 powr of_int (e - 52)"
    using lt by (intro divide_strict_right_mono) simp_all
  also have "\<dots> = 2 powr 53" unfolding two_powr_diff by simp
  also have "\<dots> = 2 ^ 53" by simp
  finally have q: "\<bar>q\<bar> < 2 ^ 53" .
  have near: "\<bar>of_int m - q\<bar> \<le> 1 / 2"
    unfolding m_def q_def by (rule tiesToEven_near)
  have "\<bar>real_of_int m\<bar> \<le> \<bar>of_int m - q\<bar> + \<bar>q\<bar>" by linarith
  also have "\<dots> < 1 / 2 + 2 ^ 53" using near q by linarith
  finally have "of_int \<bar>m\<bar> < (of_int (2 ^ 53) :: real) + 1 / 2" by simp
  then have mle: "\<bar>m\<bar> \<le> 2 ^ 53" by linarith
  show ?thesis
  proof (cases "\<bar>m\<bar> < 2 ^ 53")
    case True
    from dbl_exactI_range [OF r True _ fin] e show ?thesis by simp
  next
    case big: False
    with mle have m53: "\<bar>m\<bar> = 2 ^ 53" by simp
    then have mm: "m = 2 ^ 53 \<or> m = - (2 ^ 53)" by linarith
    then have even: "m = 2 * (m div 2)" by auto
    have small: "\<bar>m div 2\<bar> < 2 ^ 53" using mm by auto
    have "2 powr of_int (e - 51) = (2::real) powr (of_int (e - 52) + 1)" by simp
    also have "\<dots> = 2 powr of_int (e - 52) * 2" by (subst powr_add) simp
    finally have "of_int (m div 2) * 2 powr of_int (e - 51) =
        of_int (2 * (m div 2)) * (2::real) powr of_int (e - 52)" by simp
    with even r have r2: "r = of_int (m div 2) * 2 powr of_int (e - 51)" by simp
    from dbl_exactI_range [OF r2 small _ fin] e show ?thesis by simp
  qed
qed

lemma dbl_isDouble: "dbl x = Fin r \<Longrightarrow> isDouble r"
  unfolding isDouble_def by (rule dbl_idem)

lemma d_mul_isDouble: "d_mul a b = Fin p \<Longrightarrow> isDouble p"
  by (cases a; cases b) (auto simp: dbl_isDouble split: if_splits)

lemma isDouble_0: "isDouble 0"
  by (simp add: isDouble_def dbl_def)

lemma d_div_isDouble: "d_div a b = Fin p \<Longrightarrow> isDouble p"
  by (cases a; cases b) (auto simp: dbl_isDouble isDouble_0 split: if_splits)

section \<open>The rounding errors of a sum and of a quotient\<close>

lemma unitRoundoff_powr: "2 powr (- 53) = unitRoundoff"
  by (simp add: unitRoundoff_def powr_minus inverse_eq_divide)

lemma unitRoundoff_bounds: "0 < unitRoundoff" "unitRoundoff < 1"
  by (simp_all add: unitRoundoff_def)

lemma isDouble_onGrid: "isDouble r \<Longrightarrow> onGrid r"
  unfolding isDouble_def by (rule dbl_grid)

lemma add_round:
  assumes "onGrid a" "onGrid b" "0 \<le> a" "0 \<le> b" "dbl (a + b) = Fin c"
  shows "(1 - unitRoundoff) * (a + b) \<le> c \<and> c \<le> (1 + unitRoundoff) * (a + b) \<and>
         0 \<le> c \<and> onGrid c"
proof -
  let ?x = "a + b"
  have x: "0 \<le> ?x" using assms(3,4) by simp
  have g: "onGrid c" using assms(5) by (rule dbl_grid)
  have c: "0 \<le> c" using assms(5) x by (rule dbl_nonneg)
  have "\<bar>c - ?x\<bar> \<le> unitRoundoff * ?x"
  proof (cases "2 powr (- 1022) \<le> \<bar>?x\<bar>")
    case True
    from dbl_error_normal [OF assms(5) True] x show ?thesis
      by (simp add: unitRoundoff_powr)
  next
    case False
    then have "\<bar>?x\<bar> < 2 powr (- 1022)" by simp
    with onGrid_add [OF assms(1,2)] have "dbl ?x = Fin ?x" by (rule dbl_exact_subnormal)
    with assms(5) have "c = ?x" by simp
    then show ?thesis using x unitRoundoff_bounds(1) by simp
  qed
  then have "?x - unitRoundoff * ?x \<le> c \<and> c \<le> ?x + unitRoundoff * ?x" by linarith
  then show ?thesis using c g by (simp add: algebra_simps)
qed

lemma d_add_not_Fin: "\<forall>a. x \<noteq> Fin a \<Longrightarrow> d_add x (Fin r) \<noteq> Fin s"
  by (cases x) simp_all

lemma foldl_d_add_not_Fin: "\<forall>a. x \<noteq> Fin a \<Longrightarrow> foldl d_add x (map Fin rs) \<noteq> Fin s"
proof (induction rs arbitrary: x)
  case Nil
  then show ?case by simp
next
  case (Cons r rs)
  have "\<forall>a. d_add x (Fin r) \<noteq> Fin a" using Cons.prems by (cases x) simp_all
  from Cons.IH [OF this] show ?case by simp
qed

lemma sum_round:
  assumes "\<forall>r\<in>set rs. 0 \<le> r \<and> onGrid r" "0 \<le> a" "onGrid a"
    "foldl d_add (Fin a) (map Fin rs) = Fin s"
  shows "(1 - unitRoundoff) ^ length rs * (a + sum_list rs) \<le> s \<and>
         s \<le> (1 + unitRoundoff) ^ length rs * (a + sum_list rs)"
  using assms
proof (induction rs arbitrary: a)
  case Nil
  then show ?case by simp
next
  case (Cons r rs)
  let ?u = unitRoundoff
  let ?n = "length rs"
  let ?S = "sum_list rs"
  have r: "0 \<le> r" "onGrid r" using Cons.prems(1) by simp_all
  have rest: "\<forall>r\<in>set rs. 0 \<le> r \<and> onGrid r" using Cons.prems(1) by simp
  have S: "0 \<le> ?S" using rest by (intro sum_list_nonneg) simp
  have f: "foldl d_add (dbl (a + r)) (map Fin rs) = Fin s" using Cons.prems(4) by simp
  obtain c where c: "dbl (a + r) = Fin c"
  proof (cases "dbl (a + r)")
    case (Fin c) with that show ?thesis by blast
  next
    case PInf with f foldl_d_add_not_Fin [of PInf rs s] show ?thesis by simp
  next
    case NInf with f foldl_d_add_not_Fin [of NInf rs s] show ?thesis by simp
  next
    case NaN with f foldl_d_add_not_Fin [of NaN rs s] show ?thesis by simp
  qed
  from add_round [OF Cons.prems(3) r(2) Cons.prems(2) r(1) c]
  have lo: "(1 - ?u) * (a + r) \<le> c" and hi: "c \<le> (1 + ?u) * (a + r)"
    and c0: "0 \<le> c" and cg: "onGrid c" by blast+
  from f c have "foldl d_add (Fin c) (map Fin rs) = Fin s" by simp
  from Cons.IH [OF rest c0 cg this]
  have ih: "(1 - ?u) ^ ?n * (c + ?S) \<le> s" "s \<le> (1 + ?u) ^ ?n * (c + ?S)" by blast+
  have p1: "0 \<le> (1 - ?u) ^ ?n" using unitRoundoff_bounds by simp
  have p2: "0 \<le> (1 + ?u) ^ ?n" using unitRoundoff_bounds by simp
  have "(1 - ?u) * (a + r + ?S) \<le> (1 - ?u) * (a + r) + ?S"
    using S unitRoundoff_bounds by (simp add: algebra_simps)
  also have "\<dots> \<le> c + ?S" using lo by simp
  finally have "(1 - ?u) ^ ?n * ((1 - ?u) * (a + r + ?S)) \<le> (1 - ?u) ^ ?n * (c + ?S)"
    using p1 by (rule mult_left_mono)
  with ih(1) have l: "(1 - ?u) ^ Suc ?n * (a + (r + ?S)) \<le> s"
    by (simp add: mult.assoc add.assoc mult.left_commute)
  have "c + ?S \<le> (1 + ?u) * (a + r) + ?S" using hi by simp
  also have "\<dots> \<le> (1 + ?u) * (a + r + ?S)"
    using S unitRoundoff_bounds by (simp add: algebra_simps)
  finally have "(1 + ?u) ^ ?n * (c + ?S) \<le> (1 + ?u) ^ ?n * ((1 + ?u) * (a + r + ?S))"
    using p2 by (rule mult_left_mono)
  with ih(2) have h: "s \<le> (1 + ?u) ^ Suc ?n * (a + (r + ?S))"
    by (simp add: mult.assoc add.assoc mult.left_commute)
  from l h show ?case by simp
qed

lemma div_round:
  assumes "0 \<le> q" "q \<le> 2 ^ 1023"
  shows "\<exists>n. dbl q = Fin n \<and> 0 \<le> n \<and> \<bar>n - q\<bar> \<le> unitRoundoff * q + 2 powr (- 1075)"
proof -
  from assms have "\<bar>q\<bar> \<le> 2 ^ 1023" by simp
  then obtain n where n: "dbl q = Fin n" using dbl_finite by blast
  have n0: "0 \<le> n" using n assms(1) by (rule dbl_nonneg)
  have "\<bar>n - q\<bar> \<le> unitRoundoff * q + 2 powr (- 1075)"
  proof (cases "2 powr (- 1022) \<le> \<bar>q\<bar>")
    case True
    from dbl_error_normal [OF n True] assms(1) have "\<bar>n - q\<bar> \<le> unitRoundoff * q"
      by (simp add: unitRoundoff_powr)
    then show ?thesis using powr_ge_zero [of 2 "- 1075"] by linarith
  next
    case False
    then have "\<bar>q\<bar> < 2 powr (- 1022)" by simp
    from dbl_error_subnormal [OF n this] have "\<bar>n - q\<bar> \<le> 2 powr (- 1075)" .
    moreover have "0 \<le> unitRoundoff * q" using assms(1) unitRoundoff_bounds by simp
    ultimately show ?thesis by linarith
  qed
  with n n0 show ?thesis by blast
qed

lemma normalized_bound:
  fixes u K T N e :: real
  assumes u: "0 < u" "u < 1" and K: "0 \<le> K" "2 * K * u \<le> 1"
    and T1: "T * (1 - K * u) \<le> 1" and T2: "1 - K * u \<le> T"
    and N: "\<bar>N - T\<bar> \<le> u * T + e"
  shows "\<bar>N - 1\<bar> \<le> 2 * (K + 1) * u + e"
proof -
  define D where "D = 1 - K * u"
  define B where "B = 1 + 2 * (K + 1) * u"
  have D: "0 < D" using K(2) u by (simp add: D_def)
  have T0: "0 \<le> T" using T2 D by (simp add: D_def)
  have "B * D - (1 + u) = (K + 1) * u * (1 - 2 * K * u)"
    by (simp add: B_def D_def algebra_simps power2_eq_square)
  moreover have "0 \<le> (K + 1) * u * (1 - 2 * K * u)"
    using K u by (intro mult_nonneg_nonneg) simp_all
  ultimately have bd: "1 + u \<le> B * D" by linarith
  have "(1 + u) * (T * D) \<le> (1 + u) * 1"
    using T1 u by (intro mult_left_mono) (simp_all add: D_def)
  with bd have "((1 + u) * T) * D \<le> B * D" by (simp add: mult.assoc)
  then have up: "(1 + u) * T \<le> B" using D by (simp only: mult_le_cancel_right_pos)
  have "(1 - u) * D \<le> (1 - u) * T"
    using T2 u by (intro mult_left_mono) (simp_all add: D_def)
  moreover have "(1 - u) * D = 1 - (K + 1) * u + K * u * u"
    by (simp add: D_def algebra_simps)
  moreover have "0 \<le> K * u * u" using K u by simp
  ultimately have lo: "1 - (K + 1) * u \<le> (1 - u) * T" by linarith
  have "N \<le> (1 + u) * T + e" "(1 - u) * T - e \<le> N"
    using N by (simp_all add: algebra_simps abs_le_iff)
  with up lo have "N - 1 \<le> 2 * (K + 1) * u + e" "- ((K + 1) * u + e) \<le> N - 1"
    by (simp_all add: B_def)
  moreover have "0 \<le> (K + 1) * u" using K u by simp
  ultimately show ?thesis by (simp add: abs_le_iff algebra_simps)
qed

lemma sum_list_abs_diff:
  fixes f g :: "'a \<Rightarrow> real"
  assumes "\<And>x. x \<in> set xs \<Longrightarrow> \<bar>f x - g x\<bar> \<le> h x"
  shows "\<bar>sum_list (map f xs) - sum_list (map g xs)\<bar> \<le> sum_list (map h xs)"
  using assms
proof (induction xs)
  case Nil
  then show ?case by simp
next
  case (Cons x xs)
  have "\<bar>f x - g x\<bar> \<le> h x" using Cons.prems by simp
  moreover have "\<bar>sum_list (map f xs) - sum_list (map g xs)\<bar> \<le> sum_list (map h xs)"
    using Cons by simp
  ultimately show ?case by simp
qed

lemma sum_list_affine:
  fixes u e :: real
  shows "sum_list (map (\<lambda>r. u * (r / s) + e) rs) = u * (sum_list rs / s) + real (length rs) * e"
  by (induction rs) (simp_all add: algebra_simps add_divide_distrib)

lemma sum_list_quotients: "sum_list (map (\<lambda>r. r / s) rs) = sum_list rs / (s::real)"
  by (induction rs) (simp_all add: add_divide_distrib)

lemma normalize_d_sum:
  assumes rs: "\<forall>r\<in>set rs. 0 \<le> r \<and> isDouble r"
    and tot: "foldl d_add (Fin 0) (map Fin rs) = Fin s" and s: "0 < s"
    and len: "length rs < 2 ^ 32"
  shows "\<exists>ns. normalizeProbabilities_d (map Fin rs) = map Fin ns \<and>
           length ns = length rs \<and> (\<forall>n\<in>set ns. 0 \<le> n \<and> onGrid n) \<and>
           \<bar>sum_list ns - 1\<bar> \<le> (real (length rs) + 2) / 2 ^ 52"
proof -
  define u where "u = unitRoundoff"
  define K where "K = real (length rs)"
  define S where "S = sum_list rs"
  define T where "T = S / s"
  define e where "e = (2::real) powr (- 1075)"
  have u: "0 < u" "u < 1" by (simp_all add: u_def unitRoundoff_bounds)
  have K0: "0 \<le> K" by (simp add: K_def)
  have "real (length rs) < 2 ^ 32" using len by (metis of_nat_less_iff of_nat_numeral of_nat_power)
  then have K32: "K < 2 ^ 32" by (simp add: K_def)
  have Ku: "2 * K * u \<le> 1"
  proof -
    have "2 * K * u \<le> 2 * 2 ^ 32 * u" using K32 u by (intro mult_right_mono mult_left_mono) simp_all
    also have "\<dots> \<le> 1" by (simp add: u_def unitRoundoff_def)
    finally show ?thesis .
  qed
  have grid: "\<forall>r\<in>set rs. 0 \<le> r \<and> onGrid r" using rs isDouble_onGrid by blast
  from sum_round [OF grid _ onGrid_0 tot]
  have lo: "(1 - u) ^ length rs * S \<le> s" and hi: "s \<le> (1 + u) ^ length rs * S"
    by (simp_all add: u_def S_def)
  have bern: "1 - K * u \<le> (1 - u) ^ length rs"
    using Bernoulli_inequality [of "- u" "length rs"] u by (simp add: K_def)
  have D: "1 / 2 \<le> 1 - K * u" using Ku by simp
  have S0: "0 \<le> S" using grid unfolding S_def by (intro sum_list_nonneg) simp
  have T0: "0 \<le> T" using S0 s by (simp add: T_def)
  have Ts: "T * s = S" using s by (simp add: T_def)
  have T1: "T * (1 - K * u) \<le> 1"
  proof -
    have "T * (1 - K * u) \<le> T * (1 - u) ^ length rs" using bern T0 by (rule mult_left_mono)
    also have "\<dots> = ((1 - u) ^ length rs * S) / s" by (simp add: T_def)
    also have "\<dots> \<le> s / s" using lo s by (intro divide_right_mono) simp_all
    also have "\<dots> = 1" using s by simp
    finally show ?thesis .
  qed
  have T2: "1 - K * u \<le> T"
  proof -
    have p: "0 < (1 + u) ^ length rs" using u by simp
    have "(1 + u) ^ length rs * (1 - u) ^ length rs = ((1 + u) * (1 - u)) ^ length rs"
      by (simp add: power_mult_distrib)
    also have "\<dots> \<le> 1"
    proof -
      have "(1 + u) * (1 - u) = 1 - u * u" by (simp add: algebra_simps)
      moreover have "0 \<le> u * u" using u by simp
      moreover have "u * u \<le> 1" using u by (intro mult_le_one) simp_all
      ultimately show ?thesis by (intro power_le_one) simp_all
    qed
    finally have "(1 + u) ^ length rs * (1 - K * u) \<le> 1"
      using mult_left_mono [OF bern less_imp_le [OF p]] by linarith
    also have "1 = s / s" using s by simp
    also have "\<dots> \<le> ((1 + u) ^ length rs * S) / s" using hi s by (intro divide_right_mono) simp_all
    also have "\<dots> = (1 + u) ^ length rs * T" by (simp add: T_def)
    finally show ?thesis using p by (simp only: mult_le_cancel_left_pos)
  qed
  have q: "0 \<le> r / s \<and> r / s \<le> 2 ^ 1023" if "r \<in> set rs" for r
  proof -
    have r0: "0 \<le> r" using rs that by simp
    have "r \<le> S" unfolding S_def using that grid by (intro member_le_sum_list) simp_all
    then have "r / s \<le> T" unfolding T_def using s by (intro divide_right_mono) simp_all
    moreover have "T \<le> 2"
    proof -
      have "T * (1 / 2) \<le> T * (1 - K * u)" using D T0 by (rule mult_left_mono)
      with T1 show ?thesis by simp
    qed
    moreover have "(2::real) \<le> 2 ^ 1023" by simp
    ultimately have "r / s \<le> 2 ^ 1023" by linarith
    with r0 s show ?thesis by simp
  qed
  have "\<forall>r\<in>set rs. \<exists>n. dbl (r / s) = Fin n \<and> 0 \<le> n \<and> \<bar>n - r / s\<bar> \<le> u * (r / s) + e"
    using q div_round unfolding u_def e_def by blast
  then obtain f where f: "\<forall>r\<in>set rs. dbl (r / s) = Fin (f r) \<and> 0 \<le> f r \<and>
      \<bar>f r - r / s\<bar> \<le> u * (r / s) + e"
    by (rule bchoice [THEN exE]) 
  have norm: "normalizeProbabilities_d (map Fin rs) = map Fin (map f rs)"
    using f s by (simp add: normalizeProbabilities_d_def tot)
  have "\<bar>sum_list (map f rs) - sum_list (map (\<lambda>r. r / s) rs)\<bar>
          \<le> sum_list (map (\<lambda>r. u * (r / s) + e) rs)"
    using f by (intro sum_list_abs_diff) simp
  then have N: "\<bar>sum_list (map f rs) - T\<bar> \<le> u * T + K * e"
    unfolding sum_list_quotients sum_list_affine T_def S_def K_def .
  from normalized_bound [OF u K0 Ku T1 T2 N]
  have b: "\<bar>sum_list (map f rs) - 1\<bar> \<le> 2 * (K + 1) * u + K * e" .
  have "K * e \<le> 2 ^ 32 * e" using K32 by (intro mult_right_mono) (simp_all add: e_def)
  also have "\<dots> \<le> 1 / 2 ^ 52" by (simp add: e_def powr_minus inverse_eq_divide)
  finally have ke: "K * e \<le> 1 / 2 ^ 52" .
  have "2 * (K + 1) * u = (K + 1) / 2 ^ 52" by (simp add: u_def unitRoundoff_def)
  with b ke have "\<bar>sum_list (map f rs) - 1\<bar> \<le> (K + 1) / 2 ^ 52 + 1 / 2 ^ 52" by linarith
  also have "\<dots> = (K + 2) / 2 ^ 52" by (simp add: add_divide_distrib)
  finally have "\<bar>sum_list (map f rs) - 1\<bar> \<le> (real (length rs) + 2) / 2 ^ 52" by (simp add: K_def)
  moreover have "\<forall>n\<in>set (map f rs). 0 \<le> n \<and> onGrid n" using f dbl_grid by auto
  ultimately show ?thesis using norm by (intro exI [of _ "map f rs"]) simp
qed

lemma sum_round_finite:
  assumes "\<forall>r\<in>set rs. 0 \<le> r \<and> onGrid r" "0 \<le> a" "onGrid a"
    "(1 + unitRoundoff) ^ length rs * (a + sum_list rs) \<le> 2 ^ 1023"
  shows "\<exists>s. foldl d_add (Fin a) (map Fin rs) = Fin s"
  using assms
proof (induction rs arbitrary: a)
  case Nil
  then show ?case by simp
next
  case (Cons r rs)
  let ?u = unitRoundoff
  let ?n = "length rs"
  let ?S = "sum_list rs"
  have r: "0 \<le> r" "onGrid r" using Cons.prems(1) by simp_all
  have rest: "\<forall>r\<in>set rs. 0 \<le> r \<and> onGrid r" using Cons.prems(1) by simp
  have S: "0 \<le> ?S" using rest by (intro sum_list_nonneg) simp
  have u: "0 < ?u" by (rule unitRoundoff_bounds)
  have p1: "1 \<le> (1 + ?u) ^ Suc ?n" using u by (intro one_le_power) simp
  have p0: "0 \<le> (1 + ?u) ^ ?n" using u by simp
  have t: "0 \<le> a + (r + ?S)" using Cons.prems(2) r(1) S by simp
  have "a + r \<le> 1 * (a + (r + ?S))" using S by simp
  also have "\<dots> \<le> (1 + ?u) ^ Suc ?n * (a + (r + ?S))" using p1 t by (rule mult_right_mono)
  also have "\<dots> \<le> 2 ^ 1023" using Cons.prems(4) by simp
  finally have "\<bar>a + r\<bar> \<le> 2 ^ 1023" using Cons.prems(2) r(1) by simp
  then obtain c where c: "dbl (a + r) = Fin c" using dbl_finite by blast
  from add_round [OF Cons.prems(3) r(2) Cons.prems(2) r(1) c]
  have hi: "c \<le> (1 + ?u) * (a + r)" and c0: "0 \<le> c" and cg: "onGrid c" by blast+
  have "c + ?S \<le> (1 + ?u) * (a + r) + ?S" using hi by simp
  also have "\<dots> \<le> (1 + ?u) * (a + r + ?S)" using S u by (simp add: algebra_simps)
  finally have "(1 + ?u) ^ ?n * (c + ?S) \<le> (1 + ?u) ^ ?n * ((1 + ?u) * (a + r + ?S))"
    using p0 by (rule mult_left_mono)
  also have "\<dots> = (1 + ?u) ^ Suc ?n * (a + (r + ?S))" by (simp add: mult.assoc add.assoc mult.left_commute)
  also have "\<dots> \<le> 2 ^ 1023" using Cons.prems(4) by simp
  finally have "(1 + ?u) ^ ?n * (c + ?S) \<le> 2 ^ 1023" .
  from Cons.IH [OF rest c0 cg this] c show ?case by simp
qed

lemma summed_bound:
  fixes u K N t d :: real
  assumes u: "0 < u" "u < 1" and K: "0 \<le> K" "2 * K * u \<le> 1"
    and lo: "(1 - K * u) * N \<le> t" and hi: "t * (1 - K * u) \<le> N"
    and N: "\<bar>N - 1\<bar> \<le> d" and d: "d \<le> 1"
  shows "\<bar>t - 1\<bar> \<le> 2 * K * u + 3 * d"
proof -
  define D where "D = 1 - K * u"
  have D: "1 / 2 \<le> D" "D \<le> 1" using K u by (simp_all add: D_def)
  have N1: "1 - d \<le> N" "N \<le> 1 + d" using N by (simp_all add: abs_le_iff)
  have N0: "0 \<le> N" using N1 d by simp
  have "D * (1 - d) \<le> D * N" using N1(1) D by (intro mult_left_mono) simp_all
  moreover have "D * (1 - d) = 1 - K * u - d + K * u * d" by (simp add: D_def algebra_simps)
  moreover have "0 \<le> K * u * d"
  proof -
    have "0 \<le> d" using N by simp
    then show ?thesis using K u by simp
  qed
  ultimately have l: "1 - K * u - d \<le> t" using lo by (simp add: D_def)
  have "(1 + 2 * K * u) * D - 1 = K * u * (1 - 2 * K * u)" by (simp add: D_def algebra_simps)
  moreover have "0 \<le> K * u * (1 - 2 * K * u)" using K u by (intro mult_nonneg_nonneg) simp_all
  ultimately have "1 \<le> (1 + 2 * K * u) * D" by linarith
  then have "N * 1 \<le> N * ((1 + 2 * K * u) * D)" using N0 by (rule mult_left_mono)
  with hi have "t * D \<le> (N * (1 + 2 * K * u)) * D" by (simp add: D_def mult.assoc)
  moreover have "0 < D" using D by simp
  ultimately have "t \<le> N * (1 + 2 * K * u)" by (simp only: mult_le_cancel_right_pos)
  also have "\<dots> \<le> (1 + d) * (1 + 2 * K * u)"
    using N1(2) K u by (intro mult_right_mono) simp_all
  also have "\<dots> = 1 + 2 * K * u + d + d * (2 * K * u)" by (simp add: algebra_simps)
  also have "\<dots> \<le> 1 + 2 * K * u + d + d * 1"
  proof -
    have "0 \<le> d" using N by simp
    then have "d * (2 * K * u) \<le> d * 1" using K(2) by (rule mult_left_mono [rotated])
    then show ?thesis by simp
  qed
  finally have h: "t \<le> 1 + 2 * K * u + 2 * d" by simp
  have "0 \<le> K * u" "0 \<le> d" using K u N by simp_all
  with l h show ?thesis by (simp add: abs_le_iff)
qed

lemma power_roundoff:
  fixes u :: real
  assumes "0 < u" "u < 1"
  shows "1 - real n * u \<le> (1 - u) ^ n" "(1 + u) ^ n * (1 - real n * u) \<le> 1"
proof -
  show b: "1 - real n * u \<le> (1 - u) ^ n"
    using Bernoulli_inequality [of "- u" n] assms by simp
  have p: "0 \<le> (1 + u) ^ n" using assms by simp
  have "(1 + u) ^ n * (1 - u) ^ n = ((1 + u) * (1 - u)) ^ n" by (simp add: power_mult_distrib)
  also have "\<dots> \<le> 1"
  proof -
    have "(1 + u) * (1 - u) = 1 - u * u" by (simp add: algebra_simps)
    moreover have "0 \<le> u * u" using assms by simp
    moreover have "u * u \<le> 1" using assms by (intro mult_le_one) simp_all
    ultimately show ?thesis by (intro power_le_one) simp_all
  qed
  finally show "(1 + u) ^ n * (1 - real n * u) \<le> 1"
    using mult_left_mono [OF b p] by linarith
qed

lemma normalize_d_fsum:
  assumes rs: "\<forall>r\<in>set rs. 0 \<le> r \<and> isDouble r"
    and tot: "foldl d_add (Fin 0) (map Fin rs) = Fin s" and s: "0 < s"
    and len: "length rs < 2 ^ 32"
  shows "\<exists>ns t. normalizeProbabilities_d (map Fin rs) = map Fin ns \<and>
           length ns = length rs \<and>
           \<bar>sum_list ns - 1\<bar> \<le> (real (length rs) + 2) / 2 ^ 52 \<and>
           foldl d_add (Fin 0) (map Fin ns) = Fin t \<and>
           \<bar>t - 1\<bar> \<le> (4 * real (length rs) + 6) / 2 ^ 52"
proof -
  define u where "u = unitRoundoff"
  define K where "K = real (length rs)"
  define d where "d = (K + 2) / 2 ^ 52"
  from normalize_d_sum [OF assms]
  obtain ns where ns: "normalizeProbabilities_d (map Fin rs) = map Fin ns"
    "length ns = length rs" "\<forall>n\<in>set ns. 0 \<le> n \<and> onGrid n"
    "\<bar>sum_list ns - 1\<bar> \<le> (real (length rs) + 2) / 2 ^ 52"
    by blast
  define N where "N = sum_list ns"
  have u: "0 < u" "u < 1" by (simp_all add: u_def unitRoundoff_bounds)
  have K0: "0 \<le> K" by (simp add: K_def)
  have "real (length rs) < 2 ^ 32" using len by (metis of_nat_less_iff of_nat_numeral of_nat_power)
  then have K32: "K < 2 ^ 32" by (simp add: K_def)
  have Ku: "2 * K * u \<le> 1"
  proof -
    have "2 * K * u \<le> 2 * 2 ^ 32 * u" using K32 u by (intro mult_right_mono mult_left_mono) simp_all
    also have "\<dots> \<le> 1" by (simp add: u_def unitRoundoff_def)
    finally show ?thesis .
  qed
  have Nd: "\<bar>N - 1\<bar> \<le> d" using ns(4) by (simp add: N_def d_def K_def)
  have d1: "d \<le> 1"
  proof -
    have "d \<le> (2 ^ 32 + 2) / 2 ^ 52" unfolding d_def using K32 by (intro divide_right_mono) simp_all
    also have "\<dots> \<le> 1" by simp
    finally show ?thesis .
  qed
  have N0: "0 \<le> N" unfolding N_def using ns(3) by (intro sum_list_nonneg) simp
  have N2: "N \<le> 2" using Nd d1 by (simp add: abs_le_iff)
  note pw = power_roundoff [OF u, of "length ns"]
  have D: "1 / 2 \<le> 1 - K * u" using Ku by simp
  have lenK: "real (length ns) = K" by (simp add: ns(2) K_def)
  have p2: "(1 + u) ^ length ns \<le> 2"
  proof -
    have "(1 + u) ^ length ns * (1 / 2) \<le> (1 + u) ^ length ns * (1 - K * u)"
      using D u by (intro mult_left_mono) simp_all
    with pw(2) show ?thesis by (simp add: lenK)
  qed
  have "(1 + u) ^ length ns * N \<le> 2 * 2" using p2 N2 N0 u by (intro mult_mono) simp_all
  also have "\<dots> \<le> (2::real) ^ 1023" by simp
  finally have "(1 + unitRoundoff) ^ length ns * (0 + sum_list ns) \<le> 2 ^ 1023"
    by (simp add: u_def N_def)
  from sum_round_finite [OF ns(3) _ onGrid_0 this]
  obtain t where t: "foldl d_add (Fin 0) (map Fin ns) = Fin t" by auto
  from sum_round [OF ns(3) _ onGrid_0 t]
  have lo: "(1 - u) ^ length ns * N \<le> t" and hi: "t \<le> (1 + u) ^ length ns * N"
    by (simp_all add: u_def N_def)
  have l: "(1 - K * u) * N \<le> t"
  proof -
    have "(1 - K * u) * N \<le> (1 - u) ^ length ns * N"
      using pw(1) N0 unfolding lenK by (rule mult_right_mono)
    with lo show ?thesis by simp
  qed
  have h: "t * (1 - K * u) \<le> N"
  proof -
    have "t * (1 - K * u) \<le> ((1 + u) ^ length ns * N) * (1 - K * u)"
      using hi D by (intro mult_right_mono) simp_all
    also have "\<dots> = ((1 + u) ^ length ns * (1 - K * u)) * N" by (simp add: mult.assoc mult.commute)
    also have "\<dots> \<le> 1 * N" using pw(2) N0 unfolding lenK by (rule mult_right_mono)
    finally show ?thesis by simp
  qed
  from summed_bound [OF u K0 Ku l h Nd d1]
  have "\<bar>t - 1\<bar> \<le> 2 * K * u + 3 * d" .
  also have "2 * K * u = K / 2 ^ 52" by (simp add: u_def unitRoundoff_def)
  also have "K / 2 ^ 52 + 3 * d = (4 * K + 6) / 2 ^ 52" by (simp add: d_def add_divide_distrib)
  finally have "\<bar>t - 1\<bar> \<le> (4 * real (length rs) + 6) / 2 ^ 52" by (simp add: K_def)
  with ns t show ?thesis unfolding N_def by blast
qed

section \<open>The statistics of \<open>fit\<close> over double-precision arithmetic\<close>

lemma meanEach_d_all2:
  "meanEachAttributeCategory_d d = Inr d' \<Longrightarrow>
     list_all2 (\<lambda>kc kc'. fst kc' = fst kc \<and> withMean_d (snd kc) (snd kc')) d d'"
proof (induction d arbitrary: d')
  case Nil
  then show ?case by simp
next
  case (Cons kc d)
  obtain k c where kc: "kc = (k, c)" by (cases kc)
  from Cons.prems obtain sa d'' where
    "sortedAttributes c = Some sa" "meanEachAttributeCategory_d d = Inr d''"
    "d' = (k, c\<lparr>mean := Some (map attributeMean_d sa)\<rparr>) # d''"
    by (auto simp: kc split: option.splits sum.splits)
  then show ?case using Cons.IH by (simp add: kc withMean_d_def)
qed

lemma squaredDifferences_d_Some:
  "squaredDifferences_d h (Some ms) i vs acc =
     Inr (foldl (\<lambda>a v. d_add a (d_pow2 h (d_sub (ToNumber v) (ToNumber (js_index ms i))))) acc vs)"
  by (induction vs arbitrary: acc) simp_all

lemma attributeStDev_d_Some:
  "attributeStDev_d h (Some ms) sa i = Inr (stDevOf_d h (ToNumber (js_index ms i)) (sa ! i))"
  by (simp add: attributeStDev_d_def squaredDifferences_d_Some stDevOf_d_def)

lemma standardDeviation_d_all2:
  "standardDeviation_d h d = Inr d' \<Longrightarrow>
     list_all2 (\<lambda>kc kc'. fst kc' = fst kc \<and> withStDev_d h (snd kc) (snd kc')) d d'"
proof (induction d arbitrary: d')
  case Nil
  then show ?case by simp
next
  case (Cons kc d)
  obtain k c where kc: "kc = (k, c)" by (cases kc)
  from Cons.prems obtain sa sds d'' where
    "sortedAttributes c = Some sa"
    "mapE (attributeStDev_d h (mean c) sa) [0..<length sa] = Inr sds"
    "standardDeviation_d h d = Inr d''"
    "d' = (k, c\<lparr>stDev := Some sds\<rparr>) # d''"
    by (auto simp: kc split: option.splits sum.splits)
  then show ?case using Cons.IH by (simp add: kc withStDev_d_def)
qed

lemma withMean_withStDev_fitted_d:
  assumes "withMean_d c c'" "withStDev_d h c' c''"
    and "\<And>sa. sortedAttributes c = Some sa \<Longrightarrow> length sa = A"
  shows "fittedCategory_d h A c''"
proof -
  from assms(1) obtain sa where sa: "sortedAttributes c = Some sa"
    and c': "c' = c\<lparr>mean := Some (map attributeMean_d sa)\<rparr>"
    by (auto simp: withMean_d_def split: option.splits)
  have "mapE (attributeStDev_d h (Some (map attributeMean_d sa)) sa) [0..<length sa] =
        Inr (map (\<lambda>i. stDevOf_d h (attributeMean_d (sa ! i)) (sa ! i)) [0..<length sa])"
    by (rule mapE_Inr) (simp add: attributeStDev_d_Some js_index_def)
  also have "map (\<lambda>i. stDevOf_d h (attributeMean_d (sa ! i)) (sa ! i)) [0..<length sa] =
             map (\<lambda>vs. stDevOf_d h (attributeMean_d vs) vs) sa"
    by (intro nth_equalityI) auto
  finally have "c'' = c'\<lparr>stDev := Some (map (\<lambda>vs. stDevOf_d h (attributeMean_d vs) vs) sa)\<rparr>"
    using assms(2) by (simp add: withStDev_d_def c' sa)
  then show ?thesis using assms(3) [OF sa] by (simp add: fittedCategory_d_def c' sa)
qed

lemma passes_fitted_d:
  assumes "meanEachAttributeCategory_d d = Inr d'" "standardDeviation_d h d' = Inr d''"
    and "\<forall>kc\<in>set d. \<forall>sa. sortedAttributes (snd kc) = Some sa \<longrightarrow> length sa = A"
  shows "map fst d'' = map fst d \<and> (\<forall>kc\<in>set d''. fittedCategory_d h A (snd kc))"
proof -
  note m = meanEach_d_all2 [OF assms(1)] and s = standardDeviation_d_all2 [OF assms(2)]
  have len: "length d' = length d" "length d'' = length d"
    using m s by (simp_all add: list_all2_lengthD)
  have keys: "map fst d'' = map fst d"
    using len list_all2_nthD [OF m] list_all2_nthD [OF s]
    by (intro nth_equalityI) simp_all
  have "fittedCategory_d h A (snd kc)" if "kc \<in> set d''" for kc
  proof -
    from that obtain i where i: "i < length d''" "kc = d'' ! i"
      by (auto simp: in_set_conv_nth)
    then have id: "i < length d" "i < length d'" using len by simp_all
    have "withMean_d (snd (d ! i)) (snd (d' ! i))"
      using list_all2_nthD [OF m id(1)] by simp
    moreover have "withStDev_d h (snd (d' ! i)) (snd (d'' ! i))"
      using list_all2_nthD [OF s id(2)] by simp
    moreover have "\<And>sa. sortedAttributes (snd (d ! i)) = Some sa \<Longrightarrow> length sa = A"
      using assms(3) id(1) by (meson nth_mem)
    ultimately show ?thesis unfolding i(2) by (rule withMean_withStDev_fitted_d)
  qed
  with keys show ?thesis by blast
qed

lemma fit_d_shape:
  assumes "fit_d h X y = Inr d"
  shows "X \<noteq> []" and "map fst d = [1..<length d + 1]"
    and "\<forall>kc\<in>set d. fittedCategory_d h (length (hd X)) (snd kc)"
proof -
  from assms obtain d0 d1 where f: "formatData X y = Inr d0"
    and m: "meanEachAttributeCategory_d d0 = Inr d1" and s: "standardDeviation_d h d1 = Inr d"
    by (auto simp: fit_d_def split: sum.splits)
  note shape = formatData_shape [OF f]
  show "X \<noteq> []" by (rule shape(1))
  from passes_fitted_d [OF m s, of "length (hd X)"] shape(3)
  have p: "map fst d = map fst d0" "\<forall>kc\<in>set d. fittedCategory_d h (length (hd X)) (snd kc)"
    by (simp_all add: arraysOf_def)
  then show "\<forall>kc\<in>set d. fittedCategory_d h (length (hd X)) (snd kc)" by simp
  from p(1) have "length (map fst d) = length (map fst d0)" by (rule arg_cong)
  then have len: "length d = length d0" by simp
  have "map fst d = [1..<length d0 + 1]" using p(1) shape(2) by (rule trans)
  then show "map fst d = [1..<length d + 1]" by (simp only: len)
qed

lemma fitted_d_statistics:
  assumes "fittedCategory_d h A c"
  obtains sa ms ss where "sortedAttributes c = Some sa" "mean c = Some ms" "stDev c = Some ss"
    "length sa = A" "length ms = A" "length ss = A"
    "ms = map attributeMean_d sa" "ss = map (\<lambda>vs. stDevOf_d h (attributeMean_d vs) vs) sa"
  using assms by (auto simp: fittedCategory_d_def split: option.splits)

lemma foldl_d_add_exact:
  "\<forall>k\<in>{1..length qs}. isDouble (a + sum_list (take k qs)) \<Longrightarrow>
     foldl d_add (Fin a) (map Fin qs) = Fin (a + sum_list qs)"
proof (induction qs arbitrary: a)
  case Nil
  then show ?case by simp
next
  case (Cons q qs)
  have "isDouble (a + sum_list (take 1 (q # qs)))" using Cons.prems by force
  then have q: "dbl (a + q) = Fin (a + q)" by (simp add: isDouble_def)
  have "isDouble (a + q + sum_list (take k qs))" if "k \<in> {1..length qs}" for k
  proof -
    from that have "Suc k \<in> {1..length (q # qs)}" by simp
    with Cons.prems have "isDouble (a + sum_list (take (Suc k) (q # qs)))" by blast
    then show ?thesis by (simp add: add.assoc)
  qed
  then have "foldl d_add (Fin (a + q)) (map Fin qs) = Fin (a + q + sum_list qs)"
    by (intro Cons.IH) blast
  then show ?case by (simp add: q add.assoc)
qed

lemma attributeMean_d_exact:
  assumes "rs \<noteq> []" "meanIsExact rs"
  shows "attributeMean_d (map (\<lambda>r. Some (Fin r)) rs) = Fin (arithmeticMean rs)"
proof -
  have "foldl (\<lambda>s v. d_add s (ToNumber v)) (Fin 0) (map (\<lambda>r. Some (Fin r)) rs) =
        foldl d_add (Fin 0) (map Fin rs)"
    by (simp add: foldl_map)
  also have "\<dots> = Fin (0 + sum_list rs)"
    using assms(2) by (intro foldl_d_add_exact) (simp add: meanIsExact_def)
  finally have s: "foldl (\<lambda>s v. d_add s (ToNumber v)) (Fin 0) (map (\<lambda>r. Some (Fin r)) rs) =
        Fin (sum_list rs)" by simp
  have "dbl (sum_list rs / real (length rs)) = Fin (sum_list rs / real (length rs))"
    using assms(2) by (simp add: meanIsExact_def isDouble_def arithmeticMean_def)
  then show ?thesis using assms(1) by (simp add: attributeMean_d_def s arithmeticMean_def)
qed

lemma stDevOf_d_exact:
  assumes "rs \<noteq> []" "stDevIsExact h rs"
  shows "stDevOf_d h (Fin (arithmeticMean rs)) (map (\<lambda>r. Some (Fin r)) rs) =
           Fin (populationStdDev rs)"
proof -
  let ?m = "arithmeticMean rs"
  let ?F = "\<lambda>v. d_pow2 h (d_sub (ToNumber v) (Fin ?m))"
  have "map ?F (map (\<lambda>r. Some (Fin r)) rs) = map Fin (squaredDeviations rs)"
    unfolding squaredDeviations_def map_map
  proof (rule map_cong [OF refl])
    fix r assume "r \<in> set rs"
    with assms(2) have "isDouble (r - ?m)" "square h (r - ?m) = Fin ((r - ?m)\<^sup>2)"
      by (simp_all add: stDevIsExact_def)
    then show "(?F \<circ> (\<lambda>r. Some (Fin r))) r = (Fin \<circ> (\<lambda>r. (r - ?m)\<^sup>2)) r"
      by (simp add: d_sub_def isDouble_def)
  qed
  then have m: "map ?F (map (\<lambda>r. Some (Fin r)) rs) = map Fin (squaredDeviations rs)" .
  have "foldl (\<lambda>a v. d_add a (?F v)) (Fin 0) (map (\<lambda>r. Some (Fin r)) rs) =
        foldl d_add (Fin 0) (map ?F (map (\<lambda>r. Some (Fin r)) rs))"
    by (simp add: foldl_map)
  also have "\<dots> = foldl d_add (Fin 0) (map Fin (squaredDeviations rs))"
    by (simp only: m)
  also have "\<dots> = Fin (0 + sum_list (squaredDeviations rs))"
    using assms(2)
    by (intro foldl_d_add_exact) (simp add: stDevIsExact_def squaredDeviations_def)
  finally have s: "foldl (\<lambda>a v. d_add a (?F v)) (Fin 0) (map (\<lambda>r. Some (Fin r)) rs) =
        Fin (sum_list (squaredDeviations rs))" by simp
  have v: "dbl (sum_list (squaredDeviations rs) / real (length rs)) =
        Fin (sum_list (squaredDeviations rs) / real (length rs))"
    using assms(2) by (simp add: stDevIsExact_def isDouble_def)
  have "d_sqrt h (Fin (sum_list (squaredDeviations rs) / real (length rs))) =
        Fin (populationStdDev rs)"
    using assms(2) by (simp add: stDevIsExact_def)
  then show ?thesis using assms(1) by (simp add: stDevOf_d_def s v)
qed

lemma dbl_numeral: "(numeral n :: int) < 2 ^ 53 \<Longrightarrow> dbl (numeral n) = Fin (numeral n)"
  using dbl_of_int [of "numeral n"] by simp

lemma dbl_neg_numeral: "(numeral n :: int) < 2 ^ 53 \<Longrightarrow> dbl (- numeral n) = Fin (- numeral n)"
  using dbl_of_int [of "- numeral n"] by simp

lemma dbl_0: "dbl 0 = Fin 0"
  by (simp add: dbl_def)

lemma dbl_1: "dbl 1 = Fin 1"
  using dbl_of_int [of 1] by simp

lemma dbl_neg_1: "dbl (- 1) = Fin (- 1)"
  using dbl_of_int [of "- 1"] by simp

lemmas fit_d_eval = fit_d_def formatData_def addSortedAttributes_def pushRow_def pushAttribute_def
  js_get_def js_index_def emptyObject_def attributeMean_d_def attributeStDev_d_def d_sub_def
  correctlyRounded_def dbl_numeral dbl_neg_numeral dbl_0 dbl_1 dbl_neg_1 upt_conv_Cons

lemma fit_d_example:
  "fit_d correctlyRounded
     [[Fin 2], [Fin 4], [Fin 4], [Fin 4], [Fin 5], [Fin 5], [Fin 7], [Fin 9]]
     [1, 1, 1, 1, 1, 1, 1, 1] =
   Inr [(1, \<lparr>sortedAttributes =
               Some [[Some (Fin 2), Some (Fin 4), Some (Fin 4), Some (Fin 4),
                      Some (Fin 5), Some (Fin 5), Some (Fin 7), Some (Fin 9)]],
             mean = Some [Fin 5], stDev = Some [Fin 2]\<rparr>)]"
  by (simp add: fit_d_eval)

lemma arithmeticMean_example: "arithmeticMean [2, 4, 4, 4, 5, 5, 7, 9] = 5"
  by (simp add: arithmeticMean_def)

lemma populationStdDev_example: "populationStdDev [2, 4, 4, 4, 5, 5, 7, 9] = 2"
  by (simp add: populationStdDev_def arithmeticMean_def)

lemma meanIsExact_example: "meanIsExact [2, 4, 4, 4, 5, 5, 7, 9]"
  unfolding meanIsExact_def arithmeticMean_example
  by (simp add: atLeastAtMost_upt upt_conv_Cons isDouble_def dbl_numeral)

lemma stDevIsExact_example: "stDevIsExact correctlyRounded [2, 4, 4, 4, 5, 5, 7, 9]"
  unfolding stDevIsExact_def squaredDeviations_def arithmeticMean_example
    populationStdDev_example
  by (simp add: atLeastAtMost_upt upt_conv_Cons isDouble_def dbl_numeral dbl_neg_numeral
      dbl_0 dbl_1 dbl_neg_1 correctlyRounded_def)

lemma dbl_tenth: "dbl tenth = Fin tenth"
  using dbl_exactI [of tenth 3602879701896397 "- 55"] by (simp add: tenth_def powr_minus)

lemma dbl_tenth2: "dbl (tenth + tenth) = Fin (tenth + tenth)"
  using dbl_exactI [of "tenth + tenth" 3602879701896397 "- 54"] by (simp add: tenth_def powr_minus)

lemma dbl_tenth3: "dbl (tenth + tenth + tenth) = Fin (5404319552844596 / 18014398509481984)"
  using dbl_eval [of "- 2" "tenth + tenth + tenth"]
  by (simp add: tenth_def powr_minus tiesToEven_def)

lemma dbl_mean_tenth:
  "dbl (5404319552844596 / 18014398509481984 / 3) = Fin (7205759403792795 / 72057594037927936)"
  using dbl_eval [of "- 4" "5404319552844596 / 18014398509481984 / 3"]
  by (simp add: powr_minus tiesToEven_def)

lemma d_div_Fin: "b \<noteq> 0 \<Longrightarrow> d_div (Fin a) (Fin b) = dbl (a / b)"
  by simp

lemma attributeMean_d_tenth:
  "attributeMean_d [Some (Fin tenth), Some (Fin tenth), Some (Fin tenth)] =
     Fin (7205759403792795 / 72057594037927936)"
proof -
  have s: "foldl (\<lambda>s v. d_add s (ToNumber v)) (Fin 0)
          [Some (Fin tenth), Some (Fin tenth), Some (Fin tenth)] =
        Fin (5404319552844596 / 18014398509481984)"
    by (simp only: foldl.simps ToNumber.simps d_add.simps add_0_left dbl_tenth dbl_tenth2
        dbl_tenth3)
  have l: "real (length [Some (Fin tenth), Some (Fin tenth), Some (Fin tenth)]) = 3" by simp
  have "attributeMean_d [Some (Fin tenth), Some (Fin tenth), Some (Fin tenth)] =
        d_div (Fin (5404319552844596 / 18014398509481984)) (Fin 3)"
    unfolding attributeMean_d_def Let_def s l ..
  also have "\<dots> = dbl (5404319552844596 / 18014398509481984 / 3)"
    by (rule d_div_Fin) simp
  also have "\<dots> = Fin (7205759403792795 / 72057594037927936)" by (rule dbl_mean_tenth)
  finally show ?thesis .
qed

lemma stDevOf_d_tenth:
  "stDevOf_d correctlyRounded (Fin (7205759403792795 / 72057594037927936))
     [Some (Fin tenth), Some (Fin tenth), Some (Fin tenth)] = Fin (1 / 72057594037927936)"
proof -
  define q :: real where "q = 1 / 2 ^ 112"
  have dev: "tenth + - (7205759403792795 / 72057594037927936) = - (1 / 2 ^ 56)"
    by (simp add: tenth_def)
  have d: "dbl (- (1 / 2 ^ 56)) = Fin (- (1 / 2 ^ 56))"
    using dbl_exactI [of "- (1 / 2 ^ 56)" "- 1" "- 56"] by (simp add: powr_minus)
  have sq: "(- (1 / 2 ^ 56 :: real))\<^sup>2 = q" by (simp add: q_def power2_eq_square)
  have q1: "dbl q = Fin q"
    using dbl_exactI [of q 1 "- 112"] by (simp add: q_def powr_minus)
  have q2: "dbl (q + q) = Fin (q + q)"
    using dbl_exactI [of "q + q" 1 "- 111"] by (simp add: q_def powr_minus)
  have q3: "dbl (q + q + q) = Fin (q + q + q)"
    using dbl_exactI [of "q + q + q" 3 "- 112"] by (simp add: q_def powr_minus)
  have v: "(q + q + q) / 3 = q" by simp
  have q0: "q \<noteq> 0" "\<not> q \<le> 0" by (simp_all add: q_def)
  have "sqrt q = sqrt ((1 / 2 ^ 56)\<^sup>2)" by (simp add: q_def power2_eq_square)
  also have "\<dots> = 1 / 2 ^ 56" by (simp only: real_sqrt_abs) simp
  finally have r: "sqrt q = 1 / 2 ^ 56" .
  have r1: "dbl (1 / 72057594037927936) = Fin (1 / 72057594037927936)"
    using dbl_exactI [of "1 / 2 ^ 56" 1 "- 56"] by (simp add: powr_minus)
  have step: "d_pow2 correctlyRounded (d_sub (Fin tenth) (Fin (7205759403792795 / 72057594037927936)))
        = Fin q"
    unfolding d_sub_def js_neg.simps d_add.simps dev d
    by (simp only: d_pow2.simps correctlyRounded_def host.simps sq q1)
  have "foldl (\<lambda>a v. d_add a (d_pow2 correctlyRounded
            (d_sub (ToNumber v) (Fin (7205759403792795 / 72057594037927936))))) (Fin 0)
          [Some (Fin tenth), Some (Fin tenth), Some (Fin tenth)] = Fin (q + q + q)"
    by (simp only: foldl.simps ToNumber.simps step d_add.simps add_0_left q1 q2 q3)
  then have "stDevOf_d correctlyRounded (Fin (7205759403792795 / 72057594037927936))
     [Some (Fin tenth), Some (Fin tenth), Some (Fin tenth)] =
     d_sqrt correctlyRounded (d_div (Fin (q + q + q)) (Fin 3))"
    by (simp add: stDevOf_d_def)
  also have "d_div (Fin (q + q + q)) (Fin 3) = Fin q"
    by (simp only: d_div.simps v q1) simp
  also have "d_sqrt correctlyRounded (Fin q) = Fin (1 / 2 ^ 56)"
    using q0 by (simp add: correctlyRounded_def r r1)
  finally show ?thesis by simp
qed

lemma fit_d_tenth:
  "fit_d correctlyRounded [[Fin tenth], [Fin tenth], [Fin tenth]] [1, 1, 1] =
     Inr [(1, \<lparr>sortedAttributes = Some [[Some (Fin tenth), Some (Fin tenth), Some (Fin tenth)]],
               mean = Some [Fin (7205759403792795 / 72057594037927936)],
               stDev = Some [Fin (1 / 72057594037927936)]\<rparr>)]"
proof -
  have "formatData [[Fin tenth], [Fin tenth], [Fin tenth]] [1, 1, 1] =
     Inr [(1, \<lparr>sortedAttributes = Some [[Some (Fin tenth), Some (Fin tenth), Some (Fin tenth)]],
               mean = None, stDev = None\<rparr>)]"
    by (simp add: formatData_def addSortedAttributes_def pushRow_def pushAttribute_def
        js_get_def js_index_def emptyObject_def upt_conv_Cons)
  then show ?thesis
    by (simp add: fit_d_def attributeMean_d_tenth attributeStDev_d_Some stDevOf_d_tenth
        js_index_def)
qed

section \<open>The values of \<open>predict\<close> over double-precision arithmetic\<close>

lemma categoryPDF_d_densityAt:
  "mean c \<noteq> None \<Longrightarrow> stDev c \<noteq> None \<Longrightarrow> categoryPDF_d h row j c = Inr (densityAt_d h row c j)"
  by (auto simp: categoryPDF_d_def densityAt_d_def)

lemma calculatePDFPredictions_d_Inr:
  assumes "hasStatistics d"
  shows "calculatePDFPredictions_d h d row =
           Inr (map (\<lambda>j. map (\<lambda>kc. densityAt_d h row (snd kc) j) d) [0..<length row])"
  unfolding calculatePDFPredictions_d_def
proof (rule mapE_Inr)
  fix j
  show "mapE (\<lambda>kc. categoryPDF_d h row j (snd kc)) d = Inr (map (\<lambda>kc. densityAt_d h row (snd kc) j) d)"
    using assms by (intro mapE_Inr categoryPDF_d_densityAt) (auto simp: hasStatistics_def)
qed

lemma sumLogPDF_d_first_row:
  "m \<le> length r \<Longrightarrow> fold (sumLogPDF_step_d r) [0..<m] [] = map Some (take m r)"
proof (induction m)
  case 0
  then show ?case by simp
next
  case (Suc m)
  then have m: "m < length r" by simp
  have "sumLogPDF_step_d r m (map Some (take m r)) = map Some (take m r) @ [Some (r ! m)]"
    using m by (simp add: sumLogPDF_step_d_def js_load_def js_store_def js_index_def)
  also have "\<dots> = map Some (take (Suc m) r)"
    using m by (simp add: take_Suc_conv_app_nth)
  finally show ?case using Suc by simp
qed

lemma sumLogPDF_d_next_row:
  assumes "length s = n" "length r = n"
  shows "m \<le> n \<Longrightarrow>
     fold (sumLogPDF_step_d r) [0..<m] (map Some s) =
       map (\<lambda>k. Some (if k < m then d_add (s ! k) (r ! k) else s ! k)) [0..<n]"
proof (induction m)
  case 0
  show ?case using assms(1) map_Some_nth [of s] by simp
next
  case (Suc m)
  then have m: "m < n" by simp
  let ?acc = "map (\<lambda>k. Some (if k < m then d_add (s ! k) (r ! k) else s ! k)) [0..<n]"
  have "sumLogPDF_step_d r m ?acc = ?acc[m := Some (d_add (s ! m) (r ! m))]"
    using m assms by (simp add: sumLogPDF_step_d_def js_load_def js_store_def js_index_def)
  also have "\<dots> = map (\<lambda>k. Some (if k < Suc m then d_add (s ! k) (r ! k) else s ! k)) [0..<n]"
    using m by (intro nth_equalityI) (auto simp: nth_list_update less_Suc_eq)
  finally show ?case using Suc by simp
qed

lemma sumLogPDF_d_rows:
  assumes "\<forall>r\<in>set rs. length r = length s"
  shows "fold (\<lambda>logRow acc. fold (sumLogPDF_step_d logRow) [0..<length s] acc) rs (map Some s) =
           map (\<lambda>k. Some (foldl d_add (s ! k) (map (\<lambda>r. r ! k) rs))) [0..<length s]"
  using assms
proof (induction rs arbitrary: s)
  case Nil
  show ?case using map_Some_nth [of s] by simp
next
  case (Cons r rs)
  let ?s' = "map (\<lambda>k. d_add (s ! k) (r ! k)) [0..<length s]"
  have r: "length r = length s" using Cons.prems by simp
  have step: "fold (sumLogPDF_step_d r) [0..<length s] (map Some s) = map Some ?s'"
    using sumLogPDF_d_next_row [of s "length s" r "length s"] r by simp
  have len: "length ?s' = length s" by simp
  have rest: "\<forall>r\<in>set rs. length r = length ?s'" using Cons.prems by simp
  have "fold (\<lambda>logRow acc. fold (sumLogPDF_step_d logRow) [0..<length s] acc) (r # rs) (map Some s) =
        fold (\<lambda>logRow acc. fold (sumLogPDF_step_d logRow) [0..<length ?s'] acc) rs (map Some ?s')"
    by (simp add: step)
  also have "\<dots> = map (\<lambda>k. Some (foldl d_add (?s' ! k) (map (\<lambda>r. r ! k) rs))) [0..<length ?s']"
    by (rule Cons.IH [OF rest])
  also have "\<dots> = map (\<lambda>k. Some (foldl d_add (s ! k) (map (\<lambda>r. r ! k) (r # rs)))) [0..<length s]"
    by (intro nth_equalityI) auto
  finally show ?case .
qed

lemma sumLogPDF_d_rectangular:
  assumes "\<forall>r\<in>set rs. length r = length first"
  shows "sumLogPDF_d (first # rs) =
           Inr (map (\<lambda>k. Some (foldl d_add (first ! k) (map (\<lambda>r. r ! k) rs))) [0..<length first])"
proof -
  have "fold (sumLogPDF_step_d first) [0..<length first] [] = map Some first"
    using sumLogPDF_d_first_row [of "length first" first] by simp
  then show ?thesis
    using sumLogPDF_d_rows [OF assms] by (simp add: sumLogPDF_d_def)
qed

lemma expSumLogPDFOf_d_Inr:
  assumes "hasStatistics d" "row \<noteq> []"
  shows "expSumLogPDFOf_d h d row = Inr (map (\<lambda>kc. classValue_d h row (snd kc)) d)"
proof -
  let ?L = "\<lambda>j kc. d_log h (densityAt_d h row (snd kc) j)"
  let ?n = "length row"
  from assms(2) have n: "0 < ?n" by simp
  have logs: "convertPDFPredictionsToLog_d h
          (map (\<lambda>j. map (\<lambda>kc. densityAt_d h row (snd kc) j) d) [0..<?n]) =
        map (?L 0) d # map (\<lambda>j. map (?L j) d) [1..<?n]"
    using n by (simp add: convertPDFPredictionsToLog_d_def upt_conv_Cons [of 0])
  have rect: "\<forall>r\<in>set (map (\<lambda>j. map (?L j) d) [1..<?n]). length r = length (map (?L 0) d)"
    by simp
  have "sumLogPDF_d (map (?L 0) d # map (\<lambda>j. map (?L j) d) [1..<?n]) =
        Inr (map (\<lambda>k. Some (foldl d_add (map (?L 0) d ! k)
               (map (\<lambda>r. r ! k) (map (\<lambda>j. map (?L j) d) [1..<?n]))))
             [0..<length (map (?L 0) d)])"
    by (rule sumLogPDF_d_rectangular [OF rect])
  also have "\<dots> = Inr (map (\<lambda>k. Some (leftToRightSum (map (\<lambda>j. ?L j (d ! k)) [0..<?n])))
             [0..<length d])"
    using n by (simp add: upt_conv_Cons [of 0] comp_def cong: map_cong)
  finally have s: "sumLogPDF_d (map (?L 0) d # map (\<lambda>j. map (?L j) d) [1..<?n]) =
      Inr (map (\<lambda>k. Some (leftToRightSum (map (\<lambda>j. ?L j (d ! k)) [0..<?n]))) [0..<length d])" .
  have "expSumLogPDFOf_d h d row =
      (case sumLogPDF_d (convertPDFPredictionsToLog_d h
              (map (\<lambda>j. map (\<lambda>kc. densityAt_d h row (snd kc) j) d) [0..<?n])) of
         Inl e \<Rightarrow> Inl e
       | Inr sumLogs \<Rightarrow> Inr (convertLogToOriginal_d h sumLogs))"
    by (simp add: expSumLogPDFOf_d_def calculatePDFPredictions_d_Inr [OF assms(1)])
  also have "\<dots> =
      Inr (convertLogToOriginal_d h
        (map (\<lambda>k. Some (leftToRightSum (map (\<lambda>j. ?L j (d ! k)) [0..<?n]))) [0..<length d]))"
    by (simp only: logs s sum.case)
  also have "\<dots> = Inr (map (\<lambda>k. classValue_d h row (snd (d ! k))) [0..<length d])"
    by (simp add: convertLogToOriginal_d_def classValue_d_def comp_def)
  also have "map (\<lambda>k. classValue_d h row (snd (d ! k))) [0..<length d] =
             map (\<lambda>kc. classValue_d h row (snd kc)) d"
    by (intro nth_equalityI) auto
  finally show ?thesis .
qed

lemma classValue_d_logDensitySum:
  assumes "mean c = Some ms" "stDev c = Some ss" "length ms = length row" "length ss = length row"
  shows "classValue_d h row c = d_exp h (logDensitySum_d h row ms ss)"
proof -
  have eq: "map (\<lambda>j. d_log h (densityAt_d h row c j)) [0..<length row] =
        map (\<lambda>j. d_log h (pdf_d h (row ! j) (ms ! j) (ss ! j))) [0..<length row]"
    using assms by (intro map_cong) (simp_all add: densityAt_d_def js_index_def)
  show ?thesis unfolding classValue_d_def logDensitySum_d_def eq ..
qed

lemma fitted_d_hasStatistics:
  "\<forall>kc\<in>set d. fittedCategory_d h A (snd kc) \<Longrightarrow> hasStatistics d"
  unfolding hasStatistics_def by (auto elim!: fitted_d_statistics)

section \<open>Underflow of the density\<close>

lemma dbl_enclose:
  assumes "2 powr (- 1022) \<le> lo" "lo \<le> x" "x \<le> hi" "hi \<le> 2 ^ 1023"
  shows "\<exists>r. dbl x = Fin r \<and> lo / 2 \<le> r \<and> r \<le> 2 * hi"
proof -
  have lo: "0 < lo" using assms(1) powr_gt_zero [of 2 "- 1022"] by linarith
  have x: "0 < x" "\<bar>x\<bar> = x" using lo assms(2) by simp_all
  have "\<bar>x\<bar> \<le> 2 ^ 1023" using x assms(3,4) by simp
  then obtain r where r: "dbl x = Fin r" using dbl_finite by blast
  have "2 powr (- 1022) \<le> \<bar>x\<bar>" using assms(1,2) x by simp
  from dbl_error_normal [OF r this] have e: "\<bar>r - x\<bar> \<le> unitRoundoff * x"
    using x by (simp add: unitRoundoff_powr)
  have "unitRoundoff * x \<le> (1 / 2) * x"
    using x by (intro mult_right_mono) (simp_all add: unitRoundoff_def)
  then have "unitRoundoff * x \<le> x / 2" by simp
  with e x have "x / 2 \<le> r" "r \<le> 2 * x" by linarith+
  then have "lo / 2 \<le> r" "r \<le> 2 * hi" using assms(2,3) by simp_all
  with r show ?thesis by blast
qed

lemma exp_underflow:
  assumes "a \<le> - 1075"
  shows "dbl (exp a) = Fin 0"
proof -
  have "ln (2::real) < 1" by (rule ln_2_less_1)
  then have "- 1075 < - 1075 * ln (2::real)" by simp
  then have "exp (- 1075) < exp (- 1075 * ln (2::real))" by (simp only: exp_less_cancel_iff)
  also have "\<dots> = 2 powr (- 1075)" by (simp add: powr_def)
  finally have "exp (- 1075) < (2::real) powr (- 1075)" .
  moreover have "exp a \<le> exp (- 1075)" using assms by (simp only: exp_le_cancel_iff)
  ultimately have "exp a < 2 powr (- 1075)" by (rule le_less_trans [rotated])
  then have "\<bar>exp a\<bar> < 2 powr (- 1075)" by simp
  then show ?thesis by (rule dbl_tiny)
qed

lemma mathPI_bounds: "3 \<le> mathPI" "mathPI \<le> 4"
  by (simp_all add: mathPI_def)

lemma prefactor_finite:
  "\<exists>A. d_div (Fin 1) (d_mul (d_sqrt correctlyRounded (d_mul (Fin 2) (Fin mathPI))) (Fin 1)) = Fin A"
proof -
  have p: "(2::real) powr (- 1022) \<le> 1 / 16"
  proof -
    have "(2::real) powr (- 1022) \<le> 2 powr (- 4)" by (intro powr_mono) simp_all
    also have "\<dots> = 1 / 16" by (simp add: powr_minus)
    finally show ?thesis .
  qed
  have "\<exists>r. dbl (2 * mathPI) = Fin r \<and> 4 / 2 \<le> r \<and> r \<le> 2 * 8"
    using mathPI_bounds p by (intro dbl_enclose) simp_all
  then obtain t where t: "dbl (2 * mathPI) = Fin t" "2 \<le> t" "t \<le> 16" by auto
  have "1 \<le> sqrt t" using t(2) by simp
  moreover have "sqrt t \<le> sqrt 16" using t(3) by (simp only: real_sqrt_le_iff)
  then have "sqrt t \<le> 4" by simp
  ultimately have "\<exists>r. dbl (sqrt t) = Fin r \<and> 1 / 2 \<le> r \<and> r \<le> 2 * 4"
    using p by (intro dbl_enclose) simp_all
  then obtain c1 where c1: "dbl (sqrt t) = Fin c1" "1 / 2 \<le> c1" "c1 \<le> 8" by auto
  have "\<exists>r. dbl (c1 * 1) = Fin r \<and> (1 / 2) / 2 \<le> r \<and> r \<le> 2 * 8"
    using c1 p by (intro dbl_enclose) simp_all
  then obtain c2 where c2: "dbl (c1 * 1) = Fin c2" "1 / 4 \<le> c2" "c2 \<le> 16" by auto
  have "1 / 16 \<le> 1 / c2" using c2 by (simp add: field_simps)
  moreover have "1 / c2 \<le> 4" using c2 by (simp add: field_simps)
  ultimately have "\<exists>r. dbl (1 / c2) = Fin r \<and> (1 / 16) / 2 \<le> r \<and> r \<le> 2 * 4"
    using p by (intro dbl_enclose) simp_all
  then obtain A where A: "dbl (1 / c2) = Fin A" by auto
  have "t > 0" "c2 \<noteq> 0" using t c2 by simp_all
  then show ?thesis using t c1 c2 A by (simp add: correctlyRounded_def)
qed

lemma pdf_d_underflow:
  assumes "(x - m)\<^sup>2 = q" "dbl q = Fin q" "dbl (- q / 2) = Fin (- q / 2)" "2150 \<le> q"
    "dbl (x - m) = Fin (x - m)"
  shows "pdf_d correctlyRounded (Fin x) (Fin m) (Fin 1) = Fin 0"
proof -
  obtain A where A: "d_div (Fin 1)
      (d_mul (d_sqrt correctlyRounded (d_mul (Fin 2) (Fin mathPI))) (Fin 1)) = Fin A"
    using prefactor_finite by blast
  have "d_sub (Fin x) (Fin m) = Fin (x - m)" using assms(5) by (simp add: d_sub_def)
  then have "d_pow2 correctlyRounded (d_sub (Fin x) (Fin m)) = Fin q"
    using assms(1,2) by (simp add: correctlyRounded_def)
  moreover have "d_mul (Fin 2) (d_pow2 correctlyRounded (Fin 1)) = Fin 2"
    by (simp add: correctlyRounded_def dbl_1 dbl_numeral)
  ultimately have "d_div (js_neg (d_pow2 correctlyRounded (d_sub (Fin x) (Fin m))))
      (d_mul (Fin 2) (d_pow2 correctlyRounded (Fin 1))) = Fin (- q / 2)"
    using assms(3) by simp
  moreover have "dbl (exp (- q / 2)) = Fin 0" using assms(4) by (intro exp_underflow) simp
  ultimately have "d_exp correctlyRounded
      (d_div (js_neg (d_pow2 correctlyRounded (d_sub (Fin x) (Fin m))))
         (d_mul (Fin 2) (d_pow2 correctlyRounded (Fin 1)))) = Fin 0"
    by (simp add: correctlyRounded_def)
  then show ?thesis unfolding pdf_d_def A by (simp add: dbl_0)
qed

lemma pdf_d_100_1: "pdf_d correctlyRounded (Fin 100) (Fin 1) (Fin 1) = Fin 0"
proof (rule pdf_d_underflow [of _ _ 9801])
  show "(100 - 1 :: real)\<^sup>2 = 9801" by simp
  show "dbl 9801 = Fin 9801" by (simp add: dbl_numeral)
  show "dbl (- 9801 / 2) = Fin (- 9801 / 2)"
    using dbl_exactI [of "- 9801 / 2" "- 9801" "- 1"] by (simp add: powr_minus)
  show "(2150::real) \<le> 9801" by simp
  show "dbl (100 - 1) = Fin (100 - 1)" by (simp add: dbl_numeral)
qed

lemma pdf_d_100_5: "pdf_d correctlyRounded (Fin 100) (Fin 5) (Fin 1) = Fin 0"
proof (rule pdf_d_underflow [of _ _ 9025])
  show "(100 - 5 :: real)\<^sup>2 = 9025" by simp
  show "dbl 9025 = Fin 9025" by (simp add: dbl_numeral)
  show "dbl (- 9025 / 2) = Fin (- 9025 / 2)"
    using dbl_exactI [of "- 9025 / 2" "- 9025" "- 1"] by (simp add: powr_minus)
  show "(2150::real) \<le> 9025" by simp
  show "dbl (100 - 5) = Fin (100 - 5)" by (simp add: dbl_numeral)
qed

lemma gaussianDensity_pos: "0 < \<sigma> \<Longrightarrow> 0 < gaussianDensity x \<mu> \<sigma>"
  by (simp add: gaussianDensity_def)

lemma foldl_d_add_NInf_start:
  "x = NInf \<or> x = NaN \<Longrightarrow> foldl d_add x ls = NInf \<or> foldl d_add x ls = NaN"
proof (induction ls arbitrary: x)
  case Nil
  then show ?case by simp
next
  case (Cons l ls)
  have "d_add x l = NInf \<or> d_add x l = NaN" using Cons.prems by (cases l) auto
  from Cons.IH [OF this] show ?case by simp
qed

lemma d_add_NInf_right: "d_add x NInf = NInf \<or> d_add x NInf = NaN"
  by (cases x) simp_all

lemma foldl_d_add_NInf_mem:
  "NInf \<in> set ls \<Longrightarrow> foldl d_add x ls = NInf \<or> foldl d_add x ls = NaN"
proof (induction ls arbitrary: x)
  case Nil
  then show ?case by simp
next
  case (Cons l ls)
  show ?case
  proof (cases "l = NInf")
    case True
    have "foldl d_add (d_add x NInf) ls = NInf \<or> foldl d_add (d_add x NInf) ls = NaN"
      using d_add_NInf_right [of x] by (rule foldl_d_add_NInf_start)
    then show ?thesis by (simp add: True)
  next
    case False
    with Cons.prems have "NInf \<in> set ls" by simp
    from Cons.IH [OF this] show ?thesis by simp
  qed
qed

lemma leftToRightSum_NInf:
  "NInf \<in> set ls \<Longrightarrow> leftToRightSum ls = NInf \<or> leftToRightSum ls = NaN"
proof (cases ls)
  case Nil
  assume "NInf \<in> set ls"
  with Nil show ?thesis by simp
next
  case (Cons l ls')
  assume m: "NInf \<in> set ls"
  show ?thesis
  proof (cases "l = NInf")
    case True
    then show ?thesis using foldl_d_add_NInf_start [of l ls'] by (simp add: Cons)
  next
    case False
    with m Cons have "NInf \<in> set ls'" by simp
    then show ?thesis using foldl_d_add_NInf_mem [of ls' l] by (simp add: Cons)
  qed
qed

lemma logDensitySum_d_zero_density:
  assumes "j < length row" "pdf_d h (row ! j) (ms ! j) (ss ! j) = Fin 0"
  shows "d_exp h (logDensitySum_d h row ms ss) = Fin 0 \<or>
         d_exp h (logDensitySum_d h row ms ss) = NaN"
proof -
  let ?ls = "map (\<lambda>j. d_log h (pdf_d h (row ! j) (ms ! j) (ss ! j))) [0..<length row]"
  have "d_log h (pdf_d h (row ! j) (ms ! j) (ss ! j)) = NInf" by (simp add: assms(2))
  moreover have "j \<in> set [0..<length row]" using assms(1) by simp
  ultimately have "NInf \<in> set ?ls" by (metis (mono_tags, lifting) image_eqI set_map)
  from leftToRightSum_NInf [OF this] show ?thesis
    unfolding logDensitySum_d_def by auto
qed

lemma fit_d_twoClasses:
  "fit_d correctlyRounded [[Fin 0], [Fin 2], [Fin 4], [Fin 6]] [1, 1, 2, 2] = Inr twoClasses"
  by (simp add: fit_d_eval twoClasses_def)

lemma fit_d_twoAttributes:
  "fit_d correctlyRounded [[Fin 0, Fin 0], [Fin 2, Fin 2], [Fin 4, Fin 4], [Fin 6, Fin 6]]
     [1, 1, 2, 2] = Inr twoAttributes"
  by (simp add: fit_d_eval twoAttributes_def)

lemma expSumLogPDFOf_d_twoClasses:
  "expSumLogPDFOf_d correctlyRounded twoClasses [Fin 100] = Inr [Fin 0, Fin 0]"
proof -
  have s: "hasStatistics twoClasses" by (simp add: hasStatistics_def twoClasses_def)
  have "classValue_d correctlyRounded [Fin 100] (snd (twoClasses ! 0)) = Fin 0"
    by (simp add: classValue_d_def densityAt_d_def js_index_def twoClasses_def pdf_d_100_1)
  moreover have "classValue_d correctlyRounded [Fin 100] (snd (twoClasses ! 1)) = Fin 0"
    by (simp add: classValue_d_def densityAt_d_def js_index_def twoClasses_def pdf_d_100_5)
  ultimately show ?thesis
    using expSumLogPDFOf_d_Inr [OF s, of "[Fin 100]" correctlyRounded]
    by (simp add: twoClasses_def)
qed

lemma normalized_d_twoClasses:
  "normalizedProbabilitiesOf_d correctlyRounded twoClasses [Fin 100] = Inr [NaN, NaN]"
  by (simp add: normalizedProbabilitiesOf_d_def expSumLogPDFOf_d_twoClasses
      normalizeProbabilities_d_def dbl_0)

section \<open>Properties of the classifier\<close>

text \<open>
  C3. For a fitted model with at least one class and input rows with at least one
  attribute, \<open>predict\<close> returns one index per input row, in input order. The index of a
  row is a first maximum of the row's normalized values: no value is strictly greater
  than the one at the index, and every value before the index is strictly smaller (or
  \<open>NaN\<close>), so the first occurrence of the maximum wins. The label of the winning class
  is the index plus one. On finite values a first maximum is the lowest index of the
  greatest value.
\<close>

theorem predict_first_maximum:
  "(fit X y = Inr d \<and> d \<noteq> [] \<and> (\<forall>row\<in>set x. row \<noteq> []) \<longrightarrow>
      (\<exists>ps. predict d x = Inr ps \<and> length ps = length x \<and>
         (\<forall>r<length x. \<exists>vs.
            normalizedProbabilitiesOf d (x ! r) = Inr vs \<and> length vs = length d \<and>
            ps ! r = findHighestProbabilityIndex vs \<and>
            firstMaximum vs (ps ! r) \<and>
            fst (d ! (ps ! r)) = ps ! r + 1))) \<and>
   (firstMaximum (map Fin rs) i \<longrightarrow>
      i < length rs \<and> (\<forall>j<length rs. rs ! j \<le> rs ! i) \<and> (\<forall>j<i. rs ! j < rs ! i))"
proof (intro conjI impI)
  assume h: "fit X y = Inr d \<and> d \<noteq> [] \<and> (\<forall>row\<in>set x. row \<noteq> [])"
  then have f: "fit X y = Inr d" and d: "d \<noteq> []" and rows: "\<forall>row\<in>set x. row \<noteq> []"
    by blast+
  have stats: "hasStatistics d" using fit_shape(3) [OF f] by (rule fitted_hasStatistics)
  note keys = fit_shape(2) [OF f]
  let ?vs = "\<lambda>row. normalizeProbabilities (map (\<lambda>kc. classValue row (snd kc)) d)"
  let ?ps = "map (\<lambda>row. findHighestProbabilityIndex (?vs row)) x"
  have p: "predict d x = Inr ?ps" using stats rows by (rule predict_Inr)
  have "\<exists>vs. normalizedProbabilitiesOf d (x ! r) = Inr vs \<and> length vs = length d \<and>
            ?ps ! r = findHighestProbabilityIndex vs \<and>
            firstMaximum vs (?ps ! r) \<and> fst (d ! (?ps ! r)) = ?ps ! r + 1"
    if r: "r < length x" for r
  proof -
    from r rows have ne: "x ! r \<noteq> []" by simp
    have n: "normalizedProbabilitiesOf d (x ! r) = Inr (?vs (x ! r))"
      using stats ne by (rule normalizedProbabilitiesOf_Inr)
    have len: "length (?vs (x ! r)) = length d" by (simp add: length_normalize)
    with d have vne: "?vs (x ! r) \<noteq> []" by auto
    have idx: "?ps ! r = findHighestProbabilityIndex (?vs (x ! r))" using r by simp
    have fm: "firstMaximum (?vs (x ! r)) (?ps ! r)"
      unfolding idx using vne by (rule firstMaximum_findHighest)
    then have lt: "?ps ! r < length d" using len by (simp add: firstMaximum_def)
    have "fst (d ! (?ps ! r)) = map fst d ! (?ps ! r)" using lt by simp
    also have "\<dots> = [1..<length d + 1] ! (?ps ! r)" by (simp only: keys)
    also have "\<dots> = ?ps ! r + 1" using lt by (simp del: upt_Suc)
    finally have "fst (d ! (?ps ! r)) = ?ps ! r + 1" .
    with n len idx fm show ?thesis by blast
  qed
  then show "\<exists>ps. predict d x = Inr ps \<and> length ps = length x \<and>
         (\<forall>r<length x. \<exists>vs.
            normalizedProbabilitiesOf d (x ! r) = Inr vs \<and> length vs = length d \<and>
            ps ! r = findHighestProbabilityIndex vs \<and>
            firstMaximum vs (ps ! r) \<and>
            fst (d ! (ps ! r)) = ps ! r + 1)"
    using p by (intro exI [of _ ?ps]) simp
next
  assume fm: "firstMaximum (map Fin rs) i"
  then show "i < length rs" by (simp add: firstMaximum_def)
  from fm show "\<forall>j<length rs. rs ! j \<le> rs ! i" by (rule firstMaximum_finite [THEN conjunct1])
  from fm show "\<forall>j<i. rs ! j < rs ! i" by (rule firstMaximum_finite [THEN conjunct2])
qed

theorem predict_first_maximum_witness:
  "predict twoClasses [[Fin 1]] = Inr [0] \<and> fst (twoClasses ! 0) = 0 + 1 \<and>
   [1, 3, 3::real] ! 0 < [1, 3, 3] ! 1"
proof -
  have d: "twoClasses \<noteq> []" by (simp add: twoClasses_def)
  have rows: "\<forall>row\<in>set [[Fin 1]]. row \<noteq> []" by simp
  note inst = predict_first_maximum
    [of "[[Fin 0], [Fin 2], [Fin 4], [Fin 6]]" "[1, 1, 2, 2]" twoClasses "[[Fin 1]]"
        "[1, 3, 3]" 1]
  from inst fit_twoClasses d rows
  obtain ps where ps: "predict twoClasses [[Fin 1]] = Inr ps"
    "length ps = length [[Fin 1::jsnum]]"
    and all: "\<forall>r<length [[Fin 1::jsnum]]. \<exists>vs.
            normalizedProbabilitiesOf twoClasses ([[Fin 1]] ! r) = Inr vs \<and>
            length vs = length twoClasses \<and>
            ps ! r = findHighestProbabilityIndex vs \<and>
            firstMaximum vs (ps ! r) \<and>
            fst (twoClasses ! (ps ! r)) = ps ! r + 1"
    by blast
  from all [rule_format, of 0] obtain vs where
    vs: "normalizedProbabilitiesOf twoClasses [Fin 1] = Inr vs"
    and idx: "ps ! 0 = findHighestProbabilityIndex vs"
    and key: "fst (twoClasses ! (ps ! 0)) = ps ! 0 + 1"
    by auto
  let ?L = "[Fin (1 / sqrt (2 * pi) / (1 / sqrt (2 * pi) + exp (- 8) / sqrt (2 * pi))),
            Fin (exp (- 8) / sqrt (2 * pi) / (1 / sqrt (2 * pi) + exp (- 8) / sqrt (2 * pi)))]"
  from vs [unfolded normalized_twoClasses] have "?L = vs" by (rule Inr_inject)
  then have "ps ! 0 = findHighestProbabilityIndex ?L" by (simp only: idx)
  then have zero: "ps ! 0 = 0" by (simp only: findHighest_twoClasses)
  from ps(2) zero have "ps = [0]" by (cases ps) simp_all
  moreover from key zero have "fst (twoClasses ! 0) = 0 + 1" by simp
  moreover from inst firstMaximum_example have "\<forall>j<1. [1, 3, 3::real] ! j < [1, 3, 3] ! 1"
    by blast
  then have "[1, 3, 3::real] ! 0 < [1, 3, 3] ! 1" by blast
  ultimately show ?thesis using ps(1) by simp
qed

text \<open>
  C10, as the code has it. \<open>predict\<close> fails on an input row without attributes:
  \<open>#sumLogPDF\<close> reads \<open>pdfPredictionsLog[0].length\<close> of an empty array and throws a
  \<open>TypeError\<close>. And a model fitted without any class returns the index 0 for a row,
  which is not below \<open>K = 0\<close>.
\<close>

theorem predict_empty_row_counterexample:
  "fit [[Fin 0], [Fin 2], [Fin 4], [Fin 6]] [1, 1, 2, 2] = Inr twoClasses \<and>
   predict twoClasses [[]] = Inl TypeError \<and>
   fit [[]] [] = Inr [] \<and>
   predict [] [[Fin 1]] = Inr [0]"
proof (intro conjI)
  show "fit [[Fin 0], [Fin 2], [Fin 4], [Fin 6]] [1, 1, 2, 2] = Inr twoClasses"
    by (rule fit_twoClasses)
  show "predict twoClasses [[]] = Inl TypeError" by (simp add: predict_eval)
  show "fit [[]] [] = Inr []" by (simp add: fit_eval)
  show "predict [] [[Fin 1]] = Inr [0]" by (simp add: predict_eval)
qed

text \<open>
  C10, amended. For a model fitted with \<open>K\<close> classes, \<open>K\<close> at least one, and an input
  row with at least one attribute, \<open>predict\<close> does not throw and returns an index below
  \<open>K\<close>; when no normalized value is strictly greater than the one at index 0, and so
  when every normalized value is \<open>NaN\<close>, the index is 0. For a row without attributes
  \<open>predict\<close> throws a \<open>TypeError\<close>, whatever the model; for a model without classes
  and a row with at least one attribute it returns the index 0.
\<close>

theorem predict_index_in_range:
  "(fit X y = Inr d \<and> d \<noteq> [] \<and> row \<noteq> [] \<longrightarrow>
      (\<exists>i vs. predictRow d row = Inr i \<and> i < length d \<and>
         normalizedProbabilitiesOf d row = Inr vs \<and>
         ((\<forall>j<length vs. \<not> js_gt (vs ! j) (vs ! 0)) \<longrightarrow> i = 0) \<and>
         ((\<forall>v\<in>set vs. v = NaN) \<longrightarrow> i = 0))) \<and>
   (fit X y = Inr d \<and> d \<noteq> [] \<and> (\<forall>row\<in>set x. row \<noteq> []) \<longrightarrow>
      (\<exists>ps. predict d x = Inr ps \<and> length ps = length x \<and> (\<forall>i\<in>set ps. i < length d))) \<and>
   predictRow d [] = Inl TypeError \<and>
   (row \<noteq> [] \<longrightarrow> predictRow [] row = Inr 0)"
proof (intro conjI impI)
  assume h: "fit X y = Inr d \<and> d \<noteq> [] \<and> row \<noteq> []"
  then have f: "fit X y = Inr d" and d: "d \<noteq> []" and ne: "row \<noteq> []" by blast+
  have stats: "hasStatistics d" using fit_shape(3) [OF f] by (rule fitted_hasStatistics)
  let ?vs = "normalizeProbabilities (map (\<lambda>kc. classValue row (snd kc)) d)"
  have len: "length ?vs = length d" by (simp add: length_normalize)
  with d have vne: "?vs \<noteq> []" by auto
  have "findHighestProbabilityIndex ?vs < length d"
    using findHighest_less [OF vne] len by simp
  moreover have "(\<forall>j<length ?vs. \<not> js_gt (?vs ! j) (?vs ! 0)) \<longrightarrow>
      findHighestProbabilityIndex ?vs = 0"
    using findHighest_zero [of ?vs] by blast
  moreover have "(\<forall>v\<in>set ?vs. v = NaN) \<longrightarrow> findHighestProbabilityIndex ?vs = 0"
    using findHighest_all_NaN [of ?vs] by blast
  ultimately show "\<exists>i vs. predictRow d row = Inr i \<and> i < length d \<and>
         normalizedProbabilitiesOf d row = Inr vs \<and>
         ((\<forall>j<length vs. \<not> js_gt (vs ! j) (vs ! 0)) \<longrightarrow> i = 0) \<and>
         ((\<forall>v\<in>set vs. v = NaN) \<longrightarrow> i = 0)"
    using predictRow_Inr [OF stats ne] normalizedProbabilitiesOf_Inr [OF stats ne]
    by (intro exI [of _ "findHighestProbabilityIndex ?vs"] exI [of _ ?vs]) simp
next
  assume h: "fit X y = Inr d \<and> d \<noteq> [] \<and> (\<forall>row\<in>set x. row \<noteq> [])"
  then have f: "fit X y = Inr d" and d: "d \<noteq> []" and rows: "\<forall>row\<in>set x. row \<noteq> []"
    by blast+
  have stats: "hasStatistics d" using fit_shape(3) [OF f] by (rule fitted_hasStatistics)
  let ?vs = "\<lambda>row. normalizeProbabilities (map (\<lambda>kc. classValue row (snd kc)) d)"
  let ?ps = "map (\<lambda>row. findHighestProbabilityIndex (?vs row)) x"
  have p: "predict d x = Inr ?ps" using stats rows by (rule predict_Inr)
  have "findHighestProbabilityIndex (?vs row) < length d" for row
  proof -
    have len: "length (?vs row) = length d" by (simp add: length_normalize)
    with d have "?vs row \<noteq> []" by auto
    from findHighest_less [OF this] len show ?thesis by simp
  qed
  then have "\<forall>i\<in>set ?ps. i < length d" by auto
  then show "\<exists>ps. predict d x = Inr ps \<and> length ps = length x \<and> (\<forall>i\<in>set ps. i < length d)"
    using p by (intro exI [of _ ?ps]) simp
next
  show "predictRow d [] = Inl TypeError" by (rule predictRow_no_attribute)
next
  assume "row \<noteq> []"
  then show "predictRow [] row = Inr 0" by (rule predictRow_no_class)
qed

theorem predict_index_in_range_witness:
  "fit [[Fin 1], [Fin 1], [Fin 4], [Fin 6]] [1, 1, 2, 2] = Inr mixedClasses \<and>
   length mixedClasses = 2 \<and>
   normalizedProbabilitiesOf mixedClasses [Fin 5] = Inr [NaN, NaN] \<and>
   predictRow mixedClasses [Fin 5] = Inr 0 \<and>
   (\<exists>ps. predict mixedClasses [[Fin 1], [Fin 5]] = Inr ps \<and> length ps = 2 \<and>
      ps ! 0 < 2 \<and> ps ! 1 < 2) \<and>
   predictRow mixedClasses [] = Inl TypeError \<and>
   predictRow [] [Fin 5] = Inr 0"
proof -
  have d: "mixedClasses \<noteq> []" and len: "length mixedClasses = 2"
    by (simp_all add: mixedClasses_def)
  have row: "[Fin 5] \<noteq> []" by simp
  have rows: "\<forall>row\<in>set [[Fin 1], [Fin 5]]. row \<noteq> []" by simp
  note inst = predict_index_in_range
    [of "[[Fin 1], [Fin 1], [Fin 4], [Fin 6]]" "[1, 1, 2, 2]" mixedClasses "[Fin 5]"
        "[[Fin 1], [Fin 5]]"]
  from inst fit_mixedClasses d
  obtain i vs where i: "predictRow mixedClasses [Fin 5] = Inr i"
    and vs: "normalizedProbabilitiesOf mixedClasses [Fin 5] = Inr vs"
    and nan: "(\<forall>v\<in>set vs. v = NaN) \<longrightarrow> i = 0"
    by blast
  from vs have "vs = [NaN, NaN]" by (simp add: normalized_mixedClasses)
  with nan have "i = 0" by simp
  with i have p: "predictRow mixedClasses [Fin 5] = Inr 0" by simp
  from inst fit_mixedClasses d rows
  obtain ps where ps: "predict mixedClasses [[Fin 1], [Fin 5]] = Inr ps"
    "length ps = length [[Fin 1], [Fin 5::jsnum]]" "\<forall>i\<in>set ps. i < length mixedClasses"
    by blast
  from ps(2) have l2: "length ps = 2" by simp
  then have "ps ! 0 \<in> set ps" "ps ! 1 \<in> set ps" by simp_all
  with ps(3) len have "ps ! 0 < 2" "ps ! 1 < 2" by simp_all
  with ps(1) l2 have e: "\<exists>ps. predict mixedClasses [[Fin 1], [Fin 5]] = Inr ps \<and> length ps = 2 \<and>
      ps ! 0 < 2 \<and> ps ! 1 < 2" by blast
  from inst have t: "predictRow mixedClasses [] = Inl TypeError" by blast
  from predict_index_in_range [of "[]" "[]" "[]" "[Fin 5]" "[]"]
  have z: "predictRow [] [Fin 5] = Inr 0" by simp
  from fit_mixedClasses len normalized_mixedClasses p e t z show ?thesis by blast
qed

text \<open>
  C6, as the code has it. A fitted class with a constant attribute has standard
  deviation 0 for it, and \<open>predict\<close> then throws nothing and reports nothing: it returns
  index 0 for both rows of the example.
\<close>

theorem zero_stDev_not_reported_counterexample:
  "fit [[Fin 1], [Fin 1]] [1, 1] = Inr constantClass \<and>
   stDev (snd (constantClass ! 0)) = Some [Fin 0] \<and>
   predict constantClass [[Fin 1], [Fin 5]] = Inr [0, 0]"
proof (intro conjI)
  show "fit [[Fin 1], [Fin 1]] [1, 1] = Inr constantClass" by (rule fit_constantClass)
  show "stDev (snd (constantClass ! 0)) = Some [Fin 0]" by (simp add: constantClass_def)
  show "predict constantClass [[Fin 1], [Fin 5]] = Inr [0, 0]" by (rule predict_constantClass)
qed

text \<open>
  C6, amended. If a fitted model has a class and an attribute \<open>j\<close> with standard
  deviation 0, then for input rows that have an attribute \<open>j\<close> the density of that class
  is \<open>NaN\<close> whatever the input, every normalized value of every row is \<open>NaN\<close>, and
  \<open>predict\<close> returns index 0 for every row without throwing.
\<close>

theorem zero_stDev_predicts_index_zero:
  "fit X y = Inr d \<and> (c, obj) \<in> set d \<and> stDev obj = Some ss \<and> j < length ss \<and>
   ss ! j = Fin 0 \<and> (\<forall>row\<in>set x. j < length row) \<longrightarrow>
     predict d x = Inr (replicate (length x) 0) \<and>
     (\<forall>row\<in>set x. \<exists>vs. normalizedProbabilitiesOf d row = Inr vs \<and> (\<forall>v\<in>set vs. v = NaN)) \<and>
     (\<forall>v m. pdf v m (ss ! j) = NaN)"
proof (intro impI)
  assume h: "fit X y = Inr d \<and> (c, obj) \<in> set d \<and> stDev obj = Some ss \<and> j < length ss \<and>
   ss ! j = Fin 0 \<and> (\<forall>row\<in>set x. j < length row)"
  then have f: "fit X y = Inr d" and m: "(c, obj) \<in> set d" and ss: "stDev obj = Some ss"
    and j: "j < length ss" and z: "ss ! j = Fin 0" and rows: "\<forall>row\<in>set x. j < length row"
    by blast+
  have stats: "hasStatistics d" using fit_shape(3) [OF f] by (rule fitted_hasStatistics)
  let ?vs = "\<lambda>row. normalizeProbabilities (map (\<lambda>kc. classValue row (snd kc)) d)"
  have nan: "\<forall>v\<in>set (?vs row). v = NaN" if "row \<in> set x" for row
  proof -
    from that rows have "j < length row" by simp
    with ss j z have "classValue row obj = NaN" by (rule classValue_zero_stDev)
    then have "NaN \<in> set (map (\<lambda>kc. classValue row (snd kc)) d)"
      using m by force
    then show ?thesis by (rule normalize_NaN)
  qed
  have ne: "\<forall>row\<in>set x. row \<noteq> []" using rows by auto
  have "predict d x = Inr (map (\<lambda>row. findHighestProbabilityIndex (?vs row)) x)"
    using stats ne by (rule predict_Inr)
  also have "map (\<lambda>row. findHighestProbabilityIndex (?vs row)) x = map (\<lambda>row. 0) x"
    using nan by (intro map_cong) (simp_all add: findHighest_all_NaN)
  also have "\<dots> = replicate (length x) 0" by (rule replicate_map_const)
  finally have p: "predict d x = Inr (replicate (length x) 0)" .
  have "\<exists>vs. normalizedProbabilitiesOf d row = Inr vs \<and> (\<forall>v\<in>set vs. v = NaN)"
    if r: "row \<in> set x" for row
    using normalizedProbabilitiesOf_Inr [OF stats] ne r nan [OF r] by simp
  moreover have "\<forall>v m. pdf v m (ss ! j) = NaN" by (simp add: z pdf_zero_stDev)
  ultimately show "predict d x = Inr (replicate (length x) 0) \<and>
     (\<forall>row\<in>set x. \<exists>vs. normalizedProbabilitiesOf d row = Inr vs \<and> (\<forall>v\<in>set vs. v = NaN)) \<and>
     (\<forall>v m. pdf v m (ss ! j) = NaN)"
    using p by blast
qed

theorem zero_stDev_predicts_index_zero_witness:
  "predict constantClass [[Fin 1], [Fin 5], [Fin 7]] = Inr [0, 0, 0]"
proof -
  let ?obj = "\<lparr>sortedAttributes = Some [[Some (Fin 1), Some (Fin 1)]],
               mean = Some [Fin 1], stDev = Some [Fin 0]\<rparr>"
  have m: "(1, ?obj) \<in> set constantClass" by (simp add: constantClass_def)
  have rows: "\<forall>row\<in>set [[Fin 1], [Fin 5], [Fin 7]]. 0 < length row" by simp
  have "predict constantClass [[Fin 1], [Fin 5], [Fin 7]] =
          Inr (replicate (length [[Fin 1], [Fin 5], [Fin 7::jsnum]]) 0)"
    using zero_stDev_predicts_index_zero
      [of "[[Fin 1], [Fin 1]]" "[1, 1]" constantClass 1 ?obj "[Fin 0]" 0
          "[[Fin 1], [Fin 5], [Fin 7]]"]
      fit_constantClass m rows
    by simp
  then show ?thesis by (simp add: numeral_3_eq_3)
qed

text \<open>
  C8, as the code has it: with no predictions and no labels \<open>accuracyScore\<close> divides
  0 by 0 and returns \<open>NaN\<close>; nothing is signalled.
\<close>

theorem accuracyScore_empty_counterexample: "accuracyScore [] [] = NaN"
  by (simp add: accuracyScore_def countCorrectly_filter)

text \<open>
  C8, amended. With no predictions \<open>accuracyScore\<close> returns \<open>NaN\<close> whatever the labels
  are and signals nothing; with at least one prediction it returns a finite number,
  the count of the correctly classified positions over the number of predictions,
  which depends on its two arguments only.
\<close>

theorem accuracyScore_empty_is_NaN:
  "accuracyScore [] y = NaN \<and>
   accuracyScore (a # p) y =
     Fin (real (length (filter (classifiedCorrectly (a # p) y) [0..<Suc (length p)])) /
          real (Suc (length p)))"
  by (simp add: accuracyScore_def countCorrectly_filter del: upt_Suc)

text \<open>
  C4. When \<open>X\<close> is not empty, has as many rows as \<open>y\<close> has labels and \<open>A\<close>
  attributes in every row, and every label of \<open>y\<close> is positive and preceded by all
  the smaller positive labels (the values form \<open>1..K\<close> and each new value first
  appears in increasing order), the scan of \<open>y\<close> counts exactly \<open>K\<close> classes,
  \<open>K\<close> the number of distinct labels, \<open>fit\<close> succeeds with the keys \<open>1..K\<close>, and
  for every class \<open>c\<close> and attribute \<open>j\<close> the array \<open>sortedAttributes[c][j]\<close> holds
  exactly the values \<open>X[i][j]\<close> of the rows \<open>i\<close> with \<open>y[i] = c\<close>, in index order.
\<close>

theorem fit_partitions_rows:
  "X \<noteq> [] \<and> length X = length y \<and> (\<forall>row\<in>set X. length row = A) \<and> firstAppearanceOrder y \<longrightarrow>
     fst (addCategories y 0 []) = card (set y) \<and>
     set y = {1..card (set y)} \<and>
     (\<exists>d. fit X y = Inr d \<and> map fst d = [1..<Suc (card (set y))] \<and>
        (\<forall>c\<in>{1..card (set y)}. \<exists>obj sa.
           js_get d c = Some obj \<and> sortedAttributes obj = Some sa \<and> length sa = A \<and>
           (\<forall>j<A. sa ! j = classValues X y c j)))"
proof (intro impI)
  assume h: "X \<noteq> [] \<and> length X = length y \<and> (\<forall>row\<in>set X. length row = A) \<and>
    firstAppearanceOrder y"
  then have ne: "X \<noteq> []" and len: "length X = length y"
    and rect: "\<forall>row\<in>set X. length row = A" and order: "firstAppearanceOrder y"
    by blast+
  let ?K = "card (set y)"
  note ft = formatData_table [OF ne len order]
  from ne rect have A: "length (hd X) = A" by (cases X) auto
  let ?d0 = "table (partitioned X y A (length X)) ?K"
  have f0: "formatData X y = Inr ?d0" using ft(3) by (simp only: A)
  have "\<forall>kc\<in>set ?d0. sortedAttributes (snd kc) \<noteq> None"
    by (auto simp: table_def partitioned_def)
  from fit_after_formatData [OF f0 this] obtain d where d: "fit X y = Inr d"
    "length d = length ?d0"
    "\<forall>i<length ?d0. fst (d ! i) = fst (?d0 ! i) \<and>
        sortedAttributes (snd (d ! i)) = sortedAttributes (snd (?d0 ! i))"
    by blast
  have lenK: "length d = ?K" using d(2) by (simp only: length_table)
  have nth: "fst (d ! i) = Suc i \<and>
      sortedAttributes (snd (d ! i)) = Some (map (rowsOf X y (Suc i) (length X)) [0..<A])"
    if "i < ?K" for i
    using d(3) [rule_format, of i] that by (simp add: length_table nth_table partitioned_def)
  have keys: "map fst d = [1..<Suc ?K]"
    using lenK nth by (intro nth_equalityI) (simp_all del: upt_Suc)
  have cls: "\<exists>obj sa. js_get d c = Some obj \<and> sortedAttributes obj = Some sa \<and> length sa = A \<and>
           (\<forall>j<A. sa ! j = classValues X y c j)" if c: "c \<in> {1..?K}" for c
  proof -
    from c have c1: "1 \<le> c" and cK: "c \<le> ?K" and i: "c - 1 < ?K" and S: "Suc (c - 1) = c"
      by auto
    have "js_get d c = Some (snd (d ! (c - 1)))"
      using lenK _ c1 cK by (rule js_get_by_index) (simp add: nth)
    moreover have "sortedAttributes (snd (d ! (c - 1))) =
        Some (map (rowsOf X y c (length X)) [0..<A])"
      using nth [OF i] by (simp only: S)
    moreover have "\<forall>j<A. map (rowsOf X y c (length X)) [0..<A] ! j = classValues X y c j"
    proof (intro allI impI)
      fix j assume j: "j < A"
      from rowsOf_rectangular [OF rect j] j
      show "map (rowsOf X y c (length X)) [0..<A] ! j = classValues X y c j" by simp
    qed
    ultimately show ?thesis by simp
  qed
  have "fst (addCategories y 0 []) = ?K" by (simp add: ft(1))
  moreover note ft(2)
  moreover have "\<exists>d. fit X y = Inr d \<and> map fst d = [1..<Suc ?K] \<and>
        (\<forall>c\<in>{1..?K}. \<exists>obj sa.
           js_get d c = Some obj \<and> sortedAttributes obj = Some sa \<and> length sa = A \<and>
           (\<forall>j<A. sa ! j = classValues X y c j))"
    using d(1) keys cls by blast
  ultimately show "fst (addCategories y 0 []) = ?K \<and> set y = {1..?K} \<and>
     (\<exists>d. fit X y = Inr d \<and> map fst d = [1..<Suc ?K] \<and>
        (\<forall>c\<in>{1..?K}. \<exists>obj sa.
           js_get d c = Some obj \<and> sortedAttributes obj = Some sa \<and> length sa = A \<and>
           (\<forall>j<A. sa ! j = classValues X y c j)))"
    by (intro conjI)
qed

theorem fit_partitions_rows_witness:
  "fst (addCategories [1, 1, 2, 2] 0 []) = 2 \<and>
   (\<exists>obj sa. js_get twoClasses 2 = Some obj \<and> sortedAttributes obj = Some sa \<and>
      sa ! 0 = classValues [[Fin 0], [Fin 2], [Fin 4], [Fin 6]] [1, 1, 2, 2] 2 0)"
proof -
  let ?X = "[[Fin 0], [Fin 2], [Fin 4], [Fin 6]]"
  let ?y = "[1, 1, 2, 2::nat]"
  have card: "card (set ?y) = 2" by simp
  have pre: "?X \<noteq> [] \<and> length ?X = length ?y \<and> (\<forall>row\<in>set ?X. length row = 1) \<and>
    firstAppearanceOrder ?y"
    using firstAppearanceOrder_example by simp
  note inst = fit_partitions_rows [of ?X ?y 1, rule_format, OF pre, unfolded card]
  from inst have n: "fst (addCategories ?y 0 []) = 2" by blast
  from inst obtain d where d: "fit ?X ?y = Inr d"
    and all: "\<forall>c\<in>{1..2}. \<exists>obj sa.
           js_get d c = Some obj \<and> sortedAttributes obj = Some sa \<and> length sa = 1 \<and>
           (\<forall>j<1. sa ! j = classValues ?X ?y c j)"
    by blast
  from d fit_twoClasses have "d = twoClasses" by simp
  with all [rule_format, of 2] n show ?thesis by auto
qed

text \<open>
  C7, as the code has it. Neither \<open>fit\<close> nor \<open>accuracyScore\<close> checks a shape. A row
  shorter than the first row is read beyond its end and contributes \<open>undefined\<close>; with
  fewer rows than labels the surplus label still opens a class, which stays empty; and
  \<open>accuracyScore\<close> with more labels than predictions ignores the surplus label. All
  three calls return normally.
\<close>

theorem shape_mismatch_not_detected_counterexample:
  "fit [[Fin 1, Fin 2], [Fin 3]] [1, 1] =
     Inr [(1, \<lparr>sortedAttributes = Some [[Some (Fin 1), Some (Fin 3)], [Some (Fin 2), None]],
               mean = Some [Fin 2, NaN], stDev = Some [Fin 1, NaN]\<rparr>)] \<and>
   fit [[Fin 1]] [1, 2] =
     Inr [(1, \<lparr>sortedAttributes = Some [[Some (Fin 1)]],
               mean = Some [Fin 1], stDev = Some [Fin 0]\<rparr>),
          (2, \<lparr>sortedAttributes = Some [[]], mean = Some [NaN], stDev = Some [NaN]\<rparr>)] \<and>
   accuracyScore [0] [1, 2] = Fin 1"
proof (intro conjI)
  show "fit [[Fin 1, Fin 2], [Fin 3]] [1, 1] =
     Inr [(1, \<lparr>sortedAttributes = Some [[Some (Fin 1), Some (Fin 3)], [Some (Fin 2), None]],
               mean = Some [Fin 2, NaN], stDev = Some [Fin 1, NaN]\<rparr>)]"
    by (simp add: fit_eval)
  show "fit [[Fin 1]] [1, 2] =
     Inr [(1, \<lparr>sortedAttributes = Some [[Some (Fin 1)]],
               mean = Some [Fin 1], stDev = Some [Fin 0]\<rparr>),
          (2, \<lparr>sortedAttributes = Some [[]], mean = Some [NaN], stDev = Some [NaN]\<rparr>)]"
    by (simp add: fit_eval)
  show "accuracyScore [0] [1, 2] = Fin 1"
    by (simp add: accuracyScore_def countCorrectly_filter classifiedCorrectly_def js_index_def)
qed

text \<open>
  C7, amended. \<open>fit\<close> reads only the first \<open>A\<close> attributes of every row, \<open>A\<close> the
  length of the first row, so that longer rows are cut to \<open>A\<close> without notice. When
  \<open>X\<close> has more rows than \<open>y\<close> has labels and \<open>A\<close> is at least one, \<open>fit\<close> throws a
  \<open>TypeError\<close> and returns nothing.
  \<open>accuracyScore\<close> never throws: it counts the positions below the number of
  predictions at which \<open>y\<close> has a label equal to the prediction plus one, so that
  surplus labels are ignored and missing labels count as misclassified.
\<close>

theorem shape_mismatch_behaviour:
  "fit X y = fit (map (take (length (hd X))) X) y \<and>
   (length y < length X \<and> hd X \<noteq> [] \<longrightarrow> fit X y = Inl TypeError) \<and>
   accuracyScore p l =
     js_div (Fin (real (length (filter (\<lambda>i. i < length l \<and> l ! i = p ! i + 1) [0..<length p]))))
            (Fin (real (length p)))"
proof (intro conjI impI)
  show "fit X y = fit (map (take (length (hd X))) X) y" by (rule fit_take [symmetric])
next
  assume "length y < length X \<and> hd X \<noteq> []"
  then show "fit X y = Inl TypeError" by (simp add: fit_more_rows)
next
  show "accuracyScore p l =
     js_div (Fin (real (length (filter (\<lambda>i. i < length l \<and> l ! i = p ! i + 1) [0..<length p]))))
            (Fin (real (length p)))"
    by (rule accuracyScore_positions)
qed

theorem shape_mismatch_behaviour_witness:
  "fit [[Fin 1], [Fin 2]] [1] = Inl TypeError \<and>
   fit [[Fin 1], [Fin 3, Fin 9]] [1, 1] = fit [[Fin 1], [Fin 3]] [1, 1]"
proof -
  have "length [1::nat] < length [[Fin 1], [Fin 2]] \<and> hd [[Fin 1], [Fin 2]] \<noteq> []" by simp
  with shape_mismatch_behaviour [of "[[Fin 1], [Fin 2]]" "[1]"]
  have "fit [[Fin 1], [Fin 2]] [1] = Inl TypeError" by blast
  moreover from shape_mismatch_behaviour [of "[[Fin 1], [Fin 3, Fin 9]]" "[1, 1]"]
  have "fit [[Fin 1], [Fin 3, Fin 9]] [1, 1] = fit [[Fin 1], [Fin 3]] [1, 1]" by simp
  ultimately show ?thesis by simp
qed

text \<open>
  C5. For non-empty predictions and labels of the same length, \<open>accuracyScore\<close> is the
  number of indices \<open>i\<close> with \<open>y[i] = predictions[i] + 1\<close> divided by the number of
  predictions, a value between 0 and 1. Predictions \<open>[0,1,0]\<close> against labels
  \<open>[1,2,1]\<close> score 1, and \<open>[0,0,0]\<close> against \<open>[1,2,1]\<close> score 2/3.
\<close>

theorem accuracyScore_fraction:
  "(p \<noteq> [] \<and> length p = length y \<longrightarrow>
      accuracyScore p y = Fin (real (length (matchingIndices p y)) / real (length p)) \<and>
      0 \<le> real (length (matchingIndices p y)) / real (length p) \<and>
      real (length (matchingIndices p y)) / real (length p) \<le> 1) \<and>
   accuracyScore [0, 1, 0] [1, 2, 1] = Fin 1 \<and>
   accuracyScore [0, 0, 0] [1, 2, 1] = Fin (2 / 3)"
proof (intro conjI impI)
  assume h: "p \<noteq> [] \<and> length p = length y"
  from h have len: "length p = length y" by (rule conjunct2)
  from h have ne: "p \<noteq> []" by (rule conjunct1)
  then have pos: "0 < length p" by simp
  have c: "countCorrectlyClassifiedPredictions p y (length p) = length (matchingIndices p y)"
    by (rule countCorrectly_matching [OF len])
  have "accuracyScore p y =
          js_div (Fin (real (length (matchingIndices p y)))) (Fin (real (length p)))"
    unfolding accuracyScore_def Let_def c ..
  also have "\<dots> = Fin (real (length (matchingIndices p y)) / real (length p))"
    using ne by simp
  finally show "accuracyScore p y =
      Fin (real (length (matchingIndices p y)) / real (length p))" .
  show "0 \<le> real (length (matchingIndices p y)) / real (length p)"
    by simp
  show "real (length (matchingIndices p y)) / real (length p) \<le> 1"
    using pos matchingIndices_le [of p y] by simp
next
  show "accuracyScore [0, 1, 0] [1, 2, 1] = Fin 1"
    by (simp add: accuracyScore_def countCorrectly_filter classifiedCorrectly_def
        js_index_def upt_conv_Cons)
next
  show "accuracyScore [0, 0, 0] [1, 2, 1] = Fin (2 / 3)"
    by (simp add: accuracyScore_def countCorrectly_filter classifiedCorrectly_def
        js_index_def upt_conv_Cons)
qed

theorem accuracyScore_fraction_witness:
  "accuracyScore [0, 1] [1, 1] = Fin (1 / 2)"
proof -
  have "matchingIndices [0, 1] [1, 1] = [0]"
    by (simp add: matchingIndices_def upt_conv_Cons)
  then show ?thesis
    using accuracyScore_fraction [of "[0, 1]" "[1, 1]"] by simp
qed

text \<open>
  C9. Over double-precision arithmetic. Let the per-class values that \<open>predict\<close>
  normalizes be doubles that are not negative, as the results of \<open>Math.exp\<close> are, fewer
  than \<open>2^32\<close> of them as in every array, and let their total \<open>pSum\<close>, summed from
  left to right, be finite and greater than 0. Then the \<open>K\<close> normalized values are
  the values divided by \<open>pSum\<close>, each quotient rounded; their exact sum differs from 1
  by at most \<open>(K + 2) / 2^52\<close>, and their sum computed from left to right in doubles
  is finite and differs from 1 by at most \<open>(4 K + 6) / 2^52\<close>. For up to a million
  classes both differ from 1 by less than \<open>10^-9\<close>.
\<close>

theorem normalized_values_sum_to_one_within_rounding:
  "(\<forall>r\<in>set rs. 0 \<le> r \<and> isDouble r) \<and> length rs < 2 ^ 32 \<and>
   foldl d_add (Fin 0) (map Fin rs) = Fin s \<and> 0 < s \<longrightarrow>
     (\<exists>ns t. normalizeProbabilities_d (map Fin rs) = map Fin ns \<and>
        length ns = length rs \<and>
        map Fin ns = map (\<lambda>r. d_div (Fin r) (Fin s)) rs \<and>
        (\<forall>h d row. expSumLogPDFOf_d h d row = Inr (map Fin rs) \<longrightarrow>
           normalizedProbabilitiesOf_d h d row = Inr (map Fin ns)) \<and>
        \<bar>sum_list ns - 1\<bar> \<le> (real (length rs) + 2) / 2 ^ 52 \<and>
        foldl d_add (Fin 0) (map Fin ns) = Fin t \<and>
        \<bar>t - 1\<bar> \<le> (4 * real (length rs) + 6) / 2 ^ 52 \<and>
        (length rs \<le> 1000000 \<longrightarrow> \<bar>sum_list ns - 1\<bar> \<le> 1 / 10 ^ 9 \<and> \<bar>t - 1\<bar> \<le> 1 / 10 ^ 9))"
proof (intro impI)
  assume h: "(\<forall>r\<in>set rs. 0 \<le> r \<and> isDouble r) \<and> length rs < 2 ^ 32 \<and>
   foldl d_add (Fin 0) (map Fin rs) = Fin s \<and> 0 < s"
  then have rs: "\<forall>r\<in>set rs. 0 \<le> r \<and> isDouble r" and len: "length rs < 2 ^ 32"
    and tot: "foldl d_add (Fin 0) (map Fin rs) = Fin s" and s: "0 < s"
    by blast+
  from normalize_d_fsum [OF rs tot s len]
  obtain ns t where n: "normalizeProbabilities_d (map Fin rs) = map Fin ns"
    and l: "length ns = length rs"
    and b1: "\<bar>sum_list ns - 1\<bar> \<le> (real (length rs) + 2) / 2 ^ 52"
    and t: "foldl d_add (Fin 0) (map Fin ns) = Fin t"
    and b2: "\<bar>t - 1\<bar> \<le> (4 * real (length rs) + 6) / 2 ^ 52"
    by blast
  have q: "map Fin ns = map (\<lambda>r. d_div (Fin r) (Fin s)) rs"
    using n by (simp add: normalizeProbabilities_d_def tot comp_def)
  have p: "\<forall>h d row. expSumLogPDFOf_d h d row = Inr (map Fin rs) \<longrightarrow>
           normalizedProbabilitiesOf_d h d row = Inr (map Fin ns)"
    by (simp add: normalizedProbabilitiesOf_d_def n)
  have tol: "\<bar>sum_list ns - 1\<bar> \<le> 1 / 10 ^ 9 \<and> \<bar>t - 1\<bar> \<le> 1 / 10 ^ 9"
    if k: "length rs \<le> 1000000"
  proof -
    from k have "real (length rs) \<le> real 1000000" by (rule iffD2 [OF of_nat_le_iff])
    then have r: "real (length rs) \<le> 1000000" by simp
    have "(real (length rs) + 2) / 2 ^ 52 \<le> (1000000 + 2) / 2 ^ 52"
      using r by (intro divide_right_mono) simp_all
    also have "\<dots> \<le> 1 / 10 ^ 9" by simp
    finally have a: "\<bar>sum_list ns - 1\<bar> \<le> 1 / 10 ^ 9" using b1 by simp
    have "(4 * real (length rs) + 6) / 2 ^ 52 \<le> (4 * 1000000 + 6) / 2 ^ 52"
      using r by (intro divide_right_mono) simp_all
    also have "\<dots> \<le> 1 / 10 ^ 9" by simp
    finally have "\<bar>t - 1\<bar> \<le> 1 / 10 ^ 9" using b2 by simp
    with a show ?thesis by simp
  qed
  show "\<exists>ns t. normalizeProbabilities_d (map Fin rs) = map Fin ns \<and>
        length ns = length rs \<and>
        map Fin ns = map (\<lambda>r. d_div (Fin r) (Fin s)) rs \<and>
        (\<forall>h d row. expSumLogPDFOf_d h d row = Inr (map Fin rs) \<longrightarrow>
           normalizedProbabilitiesOf_d h d row = Inr (map Fin ns)) \<and>
        \<bar>sum_list ns - 1\<bar> \<le> (real (length rs) + 2) / 2 ^ 52 \<and>
        foldl d_add (Fin 0) (map Fin ns) = Fin t \<and>
        \<bar>t - 1\<bar> \<le> (4 * real (length rs) + 6) / 2 ^ 52 \<and>
        (length rs \<le> 1000000 \<longrightarrow> \<bar>sum_list ns - 1\<bar> \<le> 1 / 10 ^ 9 \<and> \<bar>t - 1\<bar> \<le> 1 / 10 ^ 9)"
    using n l q p b1 t b2 tol by blast
qed

theorem normalized_values_sum_to_one_within_rounding_witness:
  "normalizeProbabilities_d [Fin 1, Fin 2] =
     [Fin (6004799503160661 / 18014398509481984), Fin (6004799503160661 / 9007199254740992)] \<and>
   6004799503160661 / 18014398509481984 + 6004799503160661 / 9007199254740992 =
     (1 - 1 / 2 ^ 54 :: real) \<and>
   (\<exists>ns t. normalizeProbabilities_d [Fin 1, Fin 2] = map Fin ns \<and>
      \<bar>sum_list ns - 1\<bar> \<le> 4 / 2 ^ 52 \<and>
      foldl d_add (Fin 0) (map Fin ns) = Fin t \<and> \<bar>t - 1\<bar> \<le> 14 / 2 ^ 52)"
proof -
  have d1: "isDouble 1" "isDouble 2" by (simp_all add: isDouble_def dbl_1 dbl_numeral)
  have tot: "foldl d_add (Fin 0) (map Fin [1, 2]) = Fin 3" by (simp add: dbl_1 dbl_numeral)
  have a: "dbl (1 / 3) = Fin (6004799503160661 / 18014398509481984)"
    using dbl_eval [of "- 2" "1 / 3"] by (simp add: powr_minus tiesToEven_def)
  have b: "dbl (2 / 3) = Fin (6004799503160661 / 9007199254740992)"
    using dbl_eval [of "- 1" "2 / 3"] by (simp add: powr_minus tiesToEven_def)
  have n: "normalizeProbabilities_d [Fin 1, Fin 2] =
     [Fin (6004799503160661 / 18014398509481984), Fin (6004799503160661 / 9007199254740992)]"
    using tot by (simp add: normalizeProbabilities_d_def a b)
  have e: "6004799503160661 / 18014398509481984 + 6004799503160661 / 9007199254740992 =
     (1 - 1 / 2 ^ 54 :: real)" by simp
  have "(\<forall>r\<in>set [1, 2 :: real]. 0 \<le> r \<and> isDouble r) \<and> length [1, 2 :: real] < 2 ^ 32 \<and>
     foldl d_add (Fin 0) (map Fin [1, 2]) = Fin 3 \<and> (0::real) < 3"
    using d1 tot by simp
  with normalized_values_sum_to_one_within_rounding [of "[1, 2]" 3]
  obtain ns t where "normalizeProbabilities_d (map Fin [1, 2]) = map Fin ns"
    "\<bar>sum_list ns - 1\<bar> \<le> (real (length [1, 2 :: real]) + 2) / 2 ^ 52"
    "foldl d_add (Fin 0) (map Fin ns) = Fin t"
    "\<bar>t - 1\<bar> \<le> (4 * real (length [1, 2 :: real]) + 6) / 2 ^ 52"
    by blast
  then have "\<exists>ns t. normalizeProbabilities_d [Fin 1, Fin 2] = map Fin ns \<and>
      \<bar>sum_list ns - 1\<bar> \<le> 4 / 2 ^ 52 \<and>
      foldl d_add (Fin 0) (map Fin ns) = Fin t \<and> \<bar>t - 1\<bar> \<le> 14 / 2 ^ 52"
    by (intro exI [of _ ns] exI [of _ t]) simp
  with n e show ?thesis by blast
qed

text \<open>
  C1, as the code has it. The statistics are computed in doubles, and a sum of
  doubles is rounded. For three rows with the same value, the double \<open>0.1\<close>, the
  arithmetic mean is that value and the population standard deviation is 0, but the
  sum of the three is rounded upwards, and \<open>fit\<close> stores the mean
  \<open>0.10000000000000002\<close>, the next double, and the standard deviation \<open>2^-56\<close>.
\<close>

theorem mean_is_rounded_counterexample:
  "fit_d correctlyRounded [[Fin tenth], [Fin tenth], [Fin tenth]] [1, 1, 1] =
     Inr [(1, \<lparr>sortedAttributes = Some [[Some (Fin tenth), Some (Fin tenth), Some (Fin tenth)]],
               mean = Some [Fin (7205759403792795 / 72057594037927936)],
               stDev = Some [Fin (1 / 72057594037927936)]\<rparr>)] \<and>
   isDouble tenth \<and>
   arithmeticMean [tenth, tenth, tenth] = tenth \<and>
   populationStdDev [tenth, tenth, tenth] = 0 \<and>
   tenth \<noteq> 7205759403792795 / 72057594037927936"
proof (intro conjI)
  show "fit_d correctlyRounded [[Fin tenth], [Fin tenth], [Fin tenth]] [1, 1, 1] =
     Inr [(1, \<lparr>sortedAttributes = Some [[Some (Fin tenth), Some (Fin tenth), Some (Fin tenth)]],
               mean = Some [Fin (7205759403792795 / 72057594037927936)],
               stDev = Some [Fin (1 / 72057594037927936)]\<rparr>)]"
    by (rule fit_d_tenth)
  show "isDouble tenth" unfolding isDouble_def by (rule dbl_tenth)
  show m: "arithmeticMean [tenth, tenth, tenth] = tenth" by (simp add: arithmeticMean_def)
  show "populationStdDev [tenth, tenth, tenth] = 0" by (simp add: populationStdDev_def m)
  show "tenth \<noteq> 7205759403792795 / 72057594037927936" by (simp add: tenth_def)
qed

text \<open>
  C1, amended. For every class and attribute \<open>j\<close> of a fitted model, \<open>mean[c][j]\<close> is
  the sum of the training values, added from left to right, divided by their number
  \<open>N\<close>, and \<open>stDev[c][j]\<close> is the square root of the sum of the squared deviations
  from \<open>mean[c][j]\<close>, added from left to right, divided by \<open>N\<close> (not \<open>N - 1\<close>), every
  operation rounded to a double. When no operation rounds, they are the arithmetic
  mean and the population standard deviation of the values. This is so for the values
  \<open>[2,4,4,4,5,5,7,9]\<close>, where the mean is 5 and the standard deviation is 2, both as
  the specification defines them and as \<open>fit\<close> computes them.
\<close>

theorem mean_stDev_population_when_exact:
  "(fit_d h X y = Inr d \<and> (c, obj) \<in> set d \<and> j < length (hd X) \<longrightarrow>
      (\<exists>sa ms ss.
         sortedAttributes obj = Some sa \<and> mean obj = Some ms \<and> stDev obj = Some ss \<and>
         j < length sa \<and> j < length ms \<and> j < length ss \<and>
         ms ! j = attributeMean_d (sa ! j) \<and> ss ! j = stDevOf_d h (ms ! j) (sa ! j) \<and>
         (\<forall>rs. rs \<noteq> [] \<and> sa ! j = map (\<lambda>r. Some (Fin r)) rs \<and> meanIsExact rs \<longrightarrow>
               ms ! j = Fin (arithmeticMean rs)) \<and>
         (\<forall>rs. rs \<noteq> [] \<and> sa ! j = map (\<lambda>r. Some (Fin r)) rs \<and> meanIsExact rs \<and>
               stDevIsExact h rs \<longrightarrow>
               ss ! j = Fin (populationStdDev rs)))) \<and>
   meanIsExact [2, 4, 4, 4, 5, 5, 7, 9] \<and>
   stDevIsExact correctlyRounded [2, 4, 4, 4, 5, 5, 7, 9] \<and>
   arithmeticMean [2, 4, 4, 4, 5, 5, 7, 9] = 5 \<and>
   populationStdDev [2, 4, 4, 4, 5, 5, 7, 9] = 2 \<and>
   fit_d correctlyRounded
       [[Fin 2], [Fin 4], [Fin 4], [Fin 4], [Fin 5], [Fin 5], [Fin 7], [Fin 9]]
       [1, 1, 1, 1, 1, 1, 1, 1] =
     Inr [(1, \<lparr>sortedAttributes =
                 Some [[Some (Fin 2), Some (Fin 4), Some (Fin 4), Some (Fin 4),
                        Some (Fin 5), Some (Fin 5), Some (Fin 7), Some (Fin 9)]],
               mean = Some [Fin 5], stDev = Some [Fin 2]\<rparr>)]"
proof (intro conjI impI)
  assume h: "fit_d h X y = Inr d \<and> (c, obj) \<in> set d \<and> j < length (hd X)"
  then have f: "fit_d h X y = Inr d" and m: "(c, obj) \<in> set d" and j: "j < length (hd X)"
    by blast+
  from fit_d_shape(3) [OF f] m have "fittedCategory_d h (length (hd X)) obj" by force
  then obtain sa ms ss where st: "sortedAttributes obj = Some sa" "mean obj = Some ms"
    "stDev obj = Some ss" "length sa = length (hd X)" "length ms = length (hd X)"
    "length ss = length (hd X)" "ms = map attributeMean_d sa"
    "ss = map (\<lambda>vs. stDevOf_d h (attributeMean_d vs) vs) sa"
    by (rule fitted_d_statistics)
  have mj: "ms ! j = attributeMean_d (sa ! j)" using j st(4) by (simp add: st(7))
  have sj: "ss ! j = stDevOf_d h (ms ! j) (sa ! j)" using j st(4) by (simp add: st(7,8))
  have a: "ms ! j = Fin (arithmeticMean rs)"
    if rs: "rs \<noteq> [] \<and> sa ! j = map (\<lambda>r. Some (Fin r)) rs \<and> meanIsExact rs" for rs
    using rs by (simp add: mj attributeMean_d_exact)
  have b: "ss ! j = Fin (populationStdDev rs)"
    if rs: "rs \<noteq> [] \<and> sa ! j = map (\<lambda>r. Some (Fin r)) rs \<and> meanIsExact rs \<and>
       stDevIsExact h rs" for rs
  proof -
    from rs have "ms ! j = Fin (arithmeticMean rs)" by (intro a) simp
    then show ?thesis using rs by (simp add: sj stDevOf_d_exact)
  qed
  show "\<exists>sa ms ss.
         sortedAttributes obj = Some sa \<and> mean obj = Some ms \<and> stDev obj = Some ss \<and>
         j < length sa \<and> j < length ms \<and> j < length ss \<and>
         ms ! j = attributeMean_d (sa ! j) \<and> ss ! j = stDevOf_d h (ms ! j) (sa ! j) \<and>
         (\<forall>rs. rs \<noteq> [] \<and> sa ! j = map (\<lambda>r. Some (Fin r)) rs \<and> meanIsExact rs \<longrightarrow>
               ms ! j = Fin (arithmeticMean rs)) \<and>
         (\<forall>rs. rs \<noteq> [] \<and> sa ! j = map (\<lambda>r. Some (Fin r)) rs \<and> meanIsExact rs \<and>
               stDevIsExact h rs \<longrightarrow>
               ss ! j = Fin (populationStdDev rs))"
    using st(1-6) j mj sj a b by (intro exI [of _ sa] exI [of _ ms] exI [of _ ss]) simp
next
  show "meanIsExact [2, 4, 4, 4, 5, 5, 7, 9]" by (rule meanIsExact_example)
next
  show "stDevIsExact correctlyRounded [2, 4, 4, 4, 5, 5, 7, 9]" by (rule stDevIsExact_example)
next
  show "arithmeticMean [2, 4, 4, 4, 5, 5, 7, 9] = 5" by (rule arithmeticMean_example)
next
  show "populationStdDev [2, 4, 4, 4, 5, 5, 7, 9] = 2" by (rule populationStdDev_example)
next
  show "fit_d correctlyRounded
       [[Fin 2], [Fin 4], [Fin 4], [Fin 4], [Fin 5], [Fin 5], [Fin 7], [Fin 9]]
       [1, 1, 1, 1, 1, 1, 1, 1] =
     Inr [(1, \<lparr>sortedAttributes =
                 Some [[Some (Fin 2), Some (Fin 4), Some (Fin 4), Some (Fin 4),
                        Some (Fin 5), Some (Fin 5), Some (Fin 7), Some (Fin 9)]],
               mean = Some [Fin 5], stDev = Some [Fin 2]\<rparr>)]"
    by (rule fit_d_example)
qed

theorem mean_stDev_population_when_exact_witness:
  "\<exists>d obj ms ss.
     fit_d correctlyRounded
       [[Fin 2], [Fin 4], [Fin 4], [Fin 4], [Fin 5], [Fin 5], [Fin 7], [Fin 9]]
       [1, 1, 1, 1, 1, 1, 1, 1] = Inr d \<and>
     d = [(1, obj)] \<and> mean obj = Some ms \<and> stDev obj = Some ss \<and>
     ms ! 0 = Fin (arithmeticMean [2, 4, 4, 4, 5, 5, 7, 9]) \<and>
     ss ! 0 = Fin (populationStdDev [2, 4, 4, 4, 5, 5, 7, 9])"
proof -
  let ?X = "[[Fin 2], [Fin 4], [Fin 4], [Fin 4], [Fin 5], [Fin 5], [Fin 7], [Fin 9]]"
  let ?rs = "[2, 4, 4, 4, 5, 5, 7, 9 :: real]"
  let ?obj = "\<lparr>sortedAttributes =
                 Some [[Some (Fin 2), Some (Fin 4), Some (Fin 4), Some (Fin 4),
                        Some (Fin 5), Some (Fin 5), Some (Fin 7), Some (Fin 9)]],
               mean = Some [Fin 5], stDev = Some [Fin 2]\<rparr>"
  note inst = mean_stDev_population_when_exact
    [of correctlyRounded ?X "[1, 1, 1, 1, 1, 1, 1, 1]" "[(1, ?obj)]" 1 ?obj 0]
  from inst have f: "fit_d correctlyRounded ?X [1, 1, 1, 1, 1, 1, 1, 1] = Inr [(1, ?obj)]"
    and e1: "meanIsExact ?rs" and e2: "stDevIsExact correctlyRounded ?rs"
    by blast+
  have m: "(1, ?obj) \<in> set [(1, ?obj)]" by simp
  have j: "0 < length (hd ?X)" by simp
  from inst f m j
  obtain sa ms ss where st: "sortedAttributes ?obj = Some sa" "mean ?obj = Some ms"
    "stDev ?obj = Some ss"
    and a: "\<forall>rs. rs \<noteq> [] \<and> sa ! 0 = map (\<lambda>r. Some (Fin r)) rs \<and> meanIsExact rs \<longrightarrow>
               ms ! 0 = Fin (arithmeticMean rs)"
    and b: "\<forall>rs. rs \<noteq> [] \<and> sa ! 0 = map (\<lambda>r. Some (Fin r)) rs \<and> meanIsExact rs \<and>
               stDevIsExact correctlyRounded rs \<longrightarrow> ss ! 0 = Fin (populationStdDev rs)"
    by blast
  from st(1) have sa: "sa ! 0 = map (\<lambda>r. Some (Fin r)) ?rs" by auto
  have ne: "?rs \<noteq> []" by simp
  from a sa ne e1 have "ms ! 0 = Fin (arithmeticMean ?rs)" by blast
  moreover from b sa ne e1 e2 have "ss ! 0 = Fin (populationStdDev ?rs)" by blast
  ultimately show ?thesis using f st(2,3) by blast
qed

text \<open>
  C2, as the code has it. The density is computed in doubles, and \<open>Math.exp\<close> of an
  exponent below \<open>-1075\<close> is 0. For the model fitted to the rows 0, 2 (class 1) and 4, 6
  (class 2) and the input 100, the exponents are \<open>-4900.5\<close> and \<open>-4512.5\<close>: both
  densities are 0, their logarithms are \<open>-Infinity\<close>, and both per-class values are 0,
  whereas the Gaussian density and the exponential of its logarithm are positive. The
  normalized values are then 0/0, that is \<open>NaN\<close>.
\<close>

theorem density_underflow_counterexample:
  "fit_d correctlyRounded [[Fin 0], [Fin 2], [Fin 4], [Fin 6]] [1, 1, 2, 2] = Inr twoClasses \<and>
   expSumLogPDFOf_d correctlyRounded twoClasses [Fin 100] = Inr [Fin 0, Fin 0] \<and>
   pdf_d correctlyRounded (Fin 100) (Fin 1) (Fin 1) = Fin 0 \<and>
   pdf_d correctlyRounded (Fin 100) (Fin 5) (Fin 1) = Fin 0 \<and>
   0 < gaussianDensity 100 1 1 \<and>
   0 < gaussianDensity 100 5 1 \<and>
   0 < exp (ln (gaussianDensity 100 1 1)) \<and>
   0 < exp (ln (gaussianDensity 100 5 1)) \<and>
   normalizedProbabilitiesOf_d correctlyRounded twoClasses [Fin 100] = Inr [NaN, NaN]"
proof (intro conjI)
  show "fit_d correctlyRounded [[Fin 0], [Fin 2], [Fin 4], [Fin 6]] [1, 1, 2, 2] = Inr twoClasses"
    by (rule fit_d_twoClasses)
  show "expSumLogPDFOf_d correctlyRounded twoClasses [Fin 100] = Inr [Fin 0, Fin 0]"
    by (rule expSumLogPDFOf_d_twoClasses)
  show "pdf_d correctlyRounded (Fin 100) (Fin 1) (Fin 1) = Fin 0" by (rule pdf_d_100_1)
  show "pdf_d correctlyRounded (Fin 100) (Fin 5) (Fin 1) = Fin 0" by (rule pdf_d_100_5)
  show "0 < gaussianDensity 100 1 1" by (rule gaussianDensity_pos) simp
  show "0 < gaussianDensity 100 5 1" by (rule gaussianDensity_pos) simp
  show "0 < exp (ln (gaussianDensity 100 1 1))" by (rule exp_gt_zero)
  show "0 < exp (ln (gaussianDensity 100 5 1))" by (rule exp_gt_zero)
  show "normalizedProbabilitiesOf_d correctlyRounded twoClasses [Fin 100] = Inr [NaN, NaN]"
    by (rule normalized_d_twoClasses)
qed

text \<open>
  C2, amended. For a fitted model and an input vector \<open>x\<close> with as many attributes as
  the training rows (at least one), the value that \<open>predict\<close> feeds into the
  normalization is, for each class, in the order of the keys, \<open>Math.exp\<close> of the sum
  over the attributes \<open>j\<close>, added from left to right in doubles, of \<open>Math.log\<close> of the
  density \<open>#pdf(x[j], mean[c][j], stDev[c][j])\<close>: the logarithms are summed per class
  over all attributes. The density is computed in doubles and is a double; where a
  density is 0, the value of the class is 0 or \<open>NaN\<close>, whatever the other attributes.
\<close>

theorem class_value_is_exp_of_log_density_sum_in_doubles:
  "(fit_d h X y = Inr d \<and> length row = length (hd X) \<and> row \<noteq> [] \<longrightarrow>
      (\<exists>vs. expSumLogPDFOf_d h d row = Inr vs \<and> length vs = length d \<and>
         (\<forall>i<length d. \<exists>ms ss.
            mean (snd (d ! i)) = Some ms \<and> stDev (snd (d ! i)) = Some ss \<and>
            length ms = length row \<and> length ss = length row \<and>
            vs ! i = d_exp h (logDensitySum_d h row ms ss) \<and>
            ((\<exists>j<length row. pdf_d h (row ! j) (ms ! j) (ss ! j) = Fin 0) \<longrightarrow>
               vs ! i = Fin 0 \<or> vs ! i = NaN)))) \<and>
   (pdf_d h xInput meanTraining stdTraining = Fin p \<longrightarrow> isDouble p)"
proof (intro conjI impI)
  assume a: "fit_d h X y = Inr d \<and> length row = length (hd X) \<and> row \<noteq> []"
  then have f: "fit_d h X y = Inr d" and len: "length row = length (hd X)" and ne: "row \<noteq> []"
    by blast+
  note fitted = fit_d_shape(3) [OF f]
  have stats: "hasStatistics d" using fitted by (rule fitted_d_hasStatistics)
  let ?vs = "map (\<lambda>kc. classValue_d h row (snd kc)) d"
  have "\<exists>ms ss. mean (snd (d ! i)) = Some ms \<and> stDev (snd (d ! i)) = Some ss \<and>
            length ms = length row \<and> length ss = length row \<and>
            ?vs ! i = d_exp h (logDensitySum_d h row ms ss) \<and>
            ((\<exists>j<length row. pdf_d h (row ! j) (ms ! j) (ss ! j) = Fin 0) \<longrightarrow>
               ?vs ! i = Fin 0 \<or> ?vs ! i = NaN)" if i: "i < length d" for i
  proof -
    from i fitted have "fittedCategory_d h (length (hd X)) (snd (d ! i))" by simp
    then obtain ms ss where st: "mean (snd (d ! i)) = Some ms" "stDev (snd (d ! i)) = Some ss"
      "length ms = length (hd X)" "length ss = length (hd X)"
      by (rule fitted_d_statistics)
    have "classValue_d h row (snd (d ! i)) = d_exp h (logDensitySum_d h row ms ss)"
      using st by (intro classValue_d_logDensitySum) (simp_all add: len)
    then have v: "?vs ! i = d_exp h (logDensitySum_d h row ms ss)" using i by simp
    have "?vs ! i = Fin 0 \<or> ?vs ! i = NaN"
      if "\<exists>j<length row. pdf_d h (row ! j) (ms ! j) (ss ! j) = Fin 0"
      using that logDensitySum_d_zero_density [of _ row h ms ss] unfolding v by blast
    with v st show ?thesis by (simp add: len)
  qed
  then show "\<exists>vs. expSumLogPDFOf_d h d row = Inr vs \<and> length vs = length d \<and>
         (\<forall>i<length d. \<exists>ms ss.
            mean (snd (d ! i)) = Some ms \<and> stDev (snd (d ! i)) = Some ss \<and>
            length ms = length row \<and> length ss = length row \<and>
            vs ! i = d_exp h (logDensitySum_d h row ms ss) \<and>
            ((\<exists>j<length row. pdf_d h (row ! j) (ms ! j) (ss ! j) = Fin 0) \<longrightarrow>
               vs ! i = Fin 0 \<or> vs ! i = NaN))"
    using expSumLogPDFOf_d_Inr [OF stats ne] by (intro exI [of _ ?vs]) simp
next
  assume "pdf_d h xInput meanTraining stdTraining = Fin p"
  then show "isDouble p" unfolding pdf_d_def by (rule d_mul_isDouble)
qed

theorem class_value_is_exp_of_log_density_sum_in_doubles_witness:
  "\<exists>vs. expSumLogPDFOf_d correctlyRounded twoAttributes [Fin 100, Fin 1] = Inr vs \<and>
     length vs = 2 \<and>
     vs ! 0 = d_exp correctlyRounded
                (logDensitySum_d correctlyRounded [Fin 100, Fin 1] [Fin 1, Fin 1] [Fin 1, Fin 1]) \<and>
     vs ! 1 = d_exp correctlyRounded
                (logDensitySum_d correctlyRounded [Fin 100, Fin 1] [Fin 5, Fin 5] [Fin 1, Fin 1]) \<and>
     (vs ! 0 = Fin 0 \<or> vs ! 0 = NaN)"
proof -
  let ?X = "[[Fin 0, Fin 0], [Fin 2, Fin 2], [Fin 4, Fin 4], [Fin 6, Fin 6]]"
  let ?row = "[Fin 100, Fin 1]"
  have len: "length ?row = length (hd ?X)" by simp
  have "fit_d correctlyRounded ?X [1, 1, 2, 2] = Inr twoAttributes \<and>
      length ?row = length (hd ?X) \<and> ?row \<noteq> []"
    using fit_d_twoAttributes by simp
  with class_value_is_exp_of_log_density_sum_in_doubles
    [of correctlyRounded ?X "[1, 1, 2, 2]" twoAttributes ?row "Fin 0" "Fin 0" "Fin 0" 0,
     THEN conjunct1]
  obtain vs where vs: "expSumLogPDFOf_d correctlyRounded twoAttributes ?row = Inr vs"
    and l: "length vs = length twoAttributes"
    and all: "\<forall>i<length twoAttributes. \<exists>ms ss.
            mean (snd (twoAttributes ! i)) = Some ms \<and> stDev (snd (twoAttributes ! i)) = Some ss \<and>
            length ms = length ?row \<and> length ss = length ?row \<and>
            vs ! i = d_exp correctlyRounded (logDensitySum_d correctlyRounded ?row ms ss) \<and>
            ((\<exists>j<length ?row. pdf_d correctlyRounded (?row ! j) (ms ! j) (ss ! j) = Fin 0) \<longrightarrow>
               vs ! i = Fin 0 \<or> vs ! i = NaN)"
    by blast
  have l2: "length vs = 2" using l by (simp add: twoAttributes_def)
  from all [rule_format, of 0]
  have v0: "vs ! 0 = d_exp correctlyRounded
                (logDensitySum_d correctlyRounded ?row [Fin 1, Fin 1] [Fin 1, Fin 1])"
    and z: "(\<exists>j<length ?row. pdf_d correctlyRounded (?row ! j) ([Fin 1, Fin 1] ! j)
               ([Fin 1, Fin 1] ! j) = Fin 0) \<longrightarrow> vs ! 0 = Fin 0 \<or> vs ! 0 = NaN"
    by (auto simp: twoAttributes_def)
  have "pdf_d correctlyRounded (?row ! 0) ([Fin 1, Fin 1] ! 0) ([Fin 1, Fin 1] ! 0) = Fin 0"
    by (simp add: pdf_d_100_1)
  then have "\<exists>j<length ?row. pdf_d correctlyRounded (?row ! j) ([Fin 1, Fin 1] ! j)
               ([Fin 1, Fin 1] ! j) = Fin 0"
    by (intro exI [of _ 0]) simp
  with z have z0: "vs ! 0 = Fin 0 \<or> vs ! 0 = NaN" by blast
  from all [rule_format, of 1]
  have v1: "vs ! 1 = d_exp correctlyRounded
                (logDensitySum_d correctlyRounded ?row [Fin 5, Fin 5] [Fin 1, Fin 1])"
    by (auto simp: twoAttributes_def)
  from vs l2 v0 v1 z0 show ?thesis by blast
qed

end
